theory Spec2Isabelle
  imports
    Complex_Main
    "HOL-Library.Char_ord"
    "HOL-Library.List_Lexorder"
    "HOL-Library.Product_Lexorder"
    "HOL-Library.Sublist"
    "HOL-Library.Multiset"
begin

section \<open>Configuration, logging and the outside world\<close>

text \<open>
  \<^verbatim>\<open>config.py\<close> holds module constants. The three that the modelled code reads are
  kept as fields of a record so that statements can quantify over them
  (\<^verbatim>\<open>CACHE_ENABLED = True\<close>, \<^verbatim>\<open>MOUNT_POINT = "/mnt/music"\<close> and
  \<^verbatim>\<open>CACHE_PATH = "/home/pi/pi_lossless_player/cache"\<close> in the repository).
\<close>

record config =
  MOUNT_POINT :: string
  CACHE_PATH :: string
  CACHE_ENABLED :: bool

definition default_config :: config where
  "default_config =
     \<lparr>MOUNT_POINT = ''/mnt/music'',
      CACHE_PATH = ''/home/pi/pi_lossless_player/cache'',
      CACHE_ENABLED = True\<rparr>"

text \<open>
  Log records: the level and the fixed part of the message (the text of a caught
  exception, which the source interpolates at the end, is left out).
\<close>

datatype level = DEBUG | INFO | WARNING | ERROR

type_synonym log_record = "level \<times> string"

text \<open>
  The three shell commands \<^verbatim>\<open>NetworkHandler\<close> hands to \<^verbatim>\<open>execute_command\<close>:
  \<^verbatim>\<open>mount | grep -q <mount_point>\<close>, \<^verbatim>\<open>mount -t cifs ...\<close> and \<^verbatim>\<open>umount <mount_point>\<close>.
\<close>

datatype command = MountCheck | MountCifs | Umount

datatype kind = RegularFile | Directory | OtherKind

text \<open>
  What \<^verbatim>\<open>TinyTag.get\<close> returns for a readable file. A field the file does not carry
  is \<^verbatim>\<open>None\<close>.
\<close>

record tag =
  tag_album :: "string option"
  tag_albumartist :: "string option"
  tag_artist :: "string option"
  tag_year :: "string option"
  tag_title :: "string option"
  tag_track :: "int option"
  tag_disc :: "int option"
  tag_duration :: "real option"

text \<open>
  The part of the outside world the program only reads: how the OS answers the
  commands, what the share holds, which tag reads and cache writes succeed, and the
  clock. All paths are full paths.
  \<^item> \<open>mount_works\<close>: a \<^verbatim>\<open>mount -t cifs\<close> command puts the share into the mount table;
  \<^item> \<open>umount_works\<close>: a \<^verbatim>\<open>umount\<close> command takes a mounted share out of it;
  \<^item> \<open>listdir p\<close>: the entries \<^verbatim>\<open>os.listdir(p)\<close> yields on the mounted share, each with
    what \<^verbatim>\<open>os.path.isdir\<close>/\<^verbatim>\<open>os.path.isfile\<close> say of it; \<open>None\<close> when it raises;
  \<^item> \<open>share_exists p\<close>: \<^verbatim>\<open>os.path.exists(p)\<close> for a path on the mounted share;
  \<^item> \<open>read_tags p\<close>: \<^verbatim>\<open>TinyTag.get(p)\<close>, \<open>None\<close> when it raises;
  \<^item> \<open>makedirs_works d\<close>, \<open>copy_works src dst\<close>: \<^verbatim>\<open>os.makedirs(d, exist_ok=True)\<close> and
    \<^verbatim>\<open>shutil.copy2(src, dst)\<close> return without raising;
  \<^item> \<open>clock\<close>: \<^verbatim>\<open>int(time.time())\<close>.
\<close>

record env =
  mount_works :: bool
  umount_works :: bool
  listdir :: "string \<Rightarrow> (string \<times> kind) list option"
  share_exists :: "string \<Rightarrow> bool"
  read_tags :: "string \<Rightarrow> tag option"
  makedirs_works :: "string \<Rightarrow> bool"
  copy_works :: "string \<Rightarrow> string \<Rightarrow> bool"
  clock :: int

text \<open>
  The part the program changes: the mount table, the local disk, and two traces (the
  shell commands run so far and the log).
\<close>

record os_state =
  mounted :: bool
  local_paths :: "string set"
  commands :: "command list"
  logged :: "log_record list"

definition log_msg :: "level \<Rightarrow> string \<Rightarrow> os_state \<Rightarrow> os_state" where
  "log_msg lv msg s = s\<lparr>logged := logged s @ [(lv, msg)]\<rparr>"

section \<open>Paths\<close>

text \<open>
  \<^verbatim>\<open>os.path.join(a, b)\<close> on POSIX: an absolute \<open>b\<close> replaces \<open>a\<close>; otherwise a
  separator is put between them unless \<open>a\<close> is empty or already ends with one.
\<close>

definition os_path_join :: "string \<Rightarrow> string \<Rightarrow> string" where
  "os_path_join a b =
     (if b \<noteq> [] \<and> hd b = CHR ''/'' then b
      else if a = [] \<or> last a = CHR ''/'' then a @ b
      else a @ ''/'' @ b)"

text \<open>
  \<^verbatim>\<open>str(Path(a) / b)\<close>: an absolute \<open>b\<close> replaces \<open>a\<close>, an empty \<open>b\<close> leaves \<open>a\<close>.
  pathlib also normalises the result (doubled separators, \<^verbatim>\<open>.\<close> components, a trailing
  separator); the paths here are taken as already normalised.
\<close>

definition path_div :: "string \<Rightarrow> string \<Rightarrow> string" where
  "path_div a b =
     (if b = [] then a
      else if hd b = CHR ''/'' then b
      else if a \<noteq> [] \<and> last a = CHR ''/'' then a @ b
      else a @ ''/'' @ b)"

text \<open>\<^verbatim>\<open>os.path.dirname\<close>: everything before the last separator, trailing separators
  stripped unless nothing else is left.\<close>

fun rstrip_slash :: "string \<Rightarrow> string" where
  "rstrip_slash s = rev (dropWhile (\<lambda>c. c = CHR ''/'') (rev s))"

definition dirname :: "string \<Rightarrow> string" where
  "dirname p =
     (let head = rev (dropWhile (\<lambda>c. c \<noteq> CHR ''/'') (rev p))
      in if rstrip_slash head = [] then head else rstrip_slash head)"

text \<open>\<^verbatim>\<open>os.path.basename\<close>: everything after the last separator.\<close>

definition basename :: "string \<Rightarrow> string" where
  "basename p = rev (takeWhile (\<lambda>c. c \<noteq> CHR ''/'') (rev p))"

text \<open>
  \<^verbatim>\<open>os.path.splitext(name)[0]\<close>: the name up to its last dot, where leading dots of the
  last path component do not start an extension.
\<close>

definition splitext_root :: "string \<Rightarrow> string" where
  "splitext_root p =
     (let base = basename p;
          stem = dropWhile (\<lambda>c. c = CHR ''.'') base;
          ext = rev (takeWhile (\<lambda>c. c \<noteq> CHR ''.'') (rev stem))
      in if CHR ''.'' \<in> set stem then take (length p - (length ext + 1)) p else p)"

text \<open>
  \<^verbatim>\<open>os.path.exists\<close>: a path exists when it is on the local disk, or on the share while
  the share is mounted (an unmounted mount point is an empty directory).
\<close>

definition path_exists :: "env \<Rightarrow> os_state \<Rightarrow> string \<Rightarrow> bool" where
  "path_exists e s p = (p \<in> local_paths s \<or> (mounted s \<and> share_exists e p))"

section \<open>utils.execute\_command\<close>

text \<open>
  \<^verbatim>\<open>execute_command\<close> runs the command with \<^verbatim>\<open>check=True\<close> and returns its stripped
  standard output, or logs and returns \<^verbatim>\<open>None\<close> when the command exits non-zero. The
  three commands print nothing on success. \<^verbatim>\<open>grep -q\<close> succeeds exactly when the mount
  point is in the mount table; \<^verbatim>\<open>umount\<close> fails on a path that is not mounted.
\<close>

definition command_succeeds :: "env \<Rightarrow> os_state \<Rightarrow> command \<Rightarrow> bool" where
  "command_succeeds e s c =
     (case c of
        MountCheck \<Rightarrow> mounted s
      | MountCifs \<Rightarrow> mount_works e
      | Umount \<Rightarrow> mounted s \<and> umount_works e)"

definition command_effect :: "command \<Rightarrow> os_state \<Rightarrow> os_state" where
  "command_effect c s =
     (case c of
        MountCheck \<Rightarrow> s
      | MountCifs \<Rightarrow> s\<lparr>mounted := True\<rparr>
      | Umount \<Rightarrow> s\<lparr>mounted := False\<rparr>)"

definition execute_command :: "env \<Rightarrow> command \<Rightarrow> os_state \<Rightarrow> string option \<times> os_state" where
  "execute_command e c s =
     (let s1 = log_msg DEBUG ''Executing command'' (s\<lparr>commands := commands s @ [c]\<rparr>)
      in if command_succeeds e s c then (Some [], command_effect c s1)
         else (None, log_msg ERROR ''Command failed'' s1))"

section \<open>network\_handler.NetworkHandler\<close>

definition is_mounted :: "env \<Rightarrow> os_state \<Rightarrow> bool \<times> os_state" where
  "is_mounted e s =
     (let (result, s1) = execute_command e MountCheck s in (result \<noteq> None, s1))"

text \<open>
  \<^verbatim>\<open>unmount_share\<close>: the result of the \<^verbatim>\<open>umount\<close> command is bound and never read; the
  \<^verbatim>\<open>except\<close> branch (\<^verbatim>\<open>return False\<close>) is not reachable from a failing command, since
  \<^verbatim>\<open>execute_command\<close> returns \<^verbatim>\<open>None\<close> instead of raising.
\<close>

definition unmount_share :: "env \<Rightarrow> os_state \<Rightarrow> bool \<times> os_state" where
  "unmount_share e s =
     (let (m, s1) = is_mounted e s in
      if m then
        (let (result, s2) = execute_command e Umount s1
         in (True, log_msg INFO ''Unmounted share'' s2))
      else (True, s1))"

definition mount_share :: "env \<Rightarrow> os_state \<Rightarrow> bool \<times> os_state" where
  "mount_share e s =
     (let (u, s1) = unmount_share e s;
          (result, s2) = execute_command e MountCifs s1;
          (m, s3) = is_mounted e s2
      in if m then (True, log_msg INFO ''Successfully mounted share'' s3)
         else (False, log_msg ERROR ''Failed to mount share'' s3))"

definition ensure_mounted :: "env \<Rightarrow> os_state \<Rightarrow> bool \<times> os_state" where
  "ensure_mounted e s =
     (let (m, s1) = is_mounted e s in
      if \<not> m then mount_share e s1 else (True, s1))"

text \<open>
  \<^verbatim>\<open>list_directories\<close> and \<^verbatim>\<open>list_files\<close>. The optional \<^verbatim>\<open>filter_pattern\<close> is modelled
  by the predicate \<^verbatim>\<open>pattern.search\<close> computes on a file name.
\<close>

definition full_path_of :: "config \<Rightarrow> string \<Rightarrow> string" where
  "full_path_of cfg path = (if path \<noteq> [] then path_div (MOUNT_POINT cfg) path else MOUNT_POINT cfg)"

definition list_directories :: "config \<Rightarrow> env \<Rightarrow> os_state \<Rightarrow> string \<Rightarrow> string list \<times> os_state" where
  "list_directories cfg e s path =
     (let (ok, s1) = ensure_mounted e s in
      if \<not> ok then ([], s1)
      else (case listdir e (full_path_of cfg path) of
              None \<Rightarrow> ([], log_msg ERROR (''Error listing directories at '' @ path) s1)
            | Some ents \<Rightarrow> (map fst (filter (\<lambda>(d, k). k = Directory) ents), s1)))"

definition list_files ::
  "config \<Rightarrow> env \<Rightarrow> os_state \<Rightarrow> string \<Rightarrow> (string \<Rightarrow> bool) option \<Rightarrow> string list \<times> os_state" where
  "list_files cfg e s path filter_pattern =
     (let (ok, s1) = ensure_mounted e s in
      if \<not> ok then ([], s1)
      else (case listdir e (full_path_of cfg path) of
              None \<Rightarrow> ([], log_msg ERROR (''Error listing files at '' @ path) s1)
            | Some ents \<Rightarrow>
                (let files = map fst (filter (\<lambda>(f, k). k = RegularFile) ents)
                 in (case filter_pattern of
                       None \<Rightarrow> files
                     | Some pattern \<Rightarrow> filter pattern files, s1))))"

text \<open>
  \<^verbatim>\<open>os.makedirs(d, exist_ok=True)\<close> creates \<open>d\<close> and every missing ancestor: the prefixes
  of \<open>d\<close> that stop before a separator, and \<open>d\<close> itself.
\<close>

definition dir_chain :: "string \<Rightarrow> string set" where
  "dir_chain d = set (filter (\<lambda>p. p \<noteq> [])
                   (d # map (\<lambda>i. take i d) (filter (\<lambda>i. d ! i = CHR ''/'') [0..<length d])))"

text \<open>
  \<^verbatim>\<open>get_file_path\<close>. The \<^verbatim>\<open>try\<close> block around \<^verbatim>\<open>makedirs\<close> and \<^verbatim>\<open>copy2\<close> is left at the
  first call that raises; a failed copy is taken to leave no file behind.
\<close>

definition get_file_path :: "config \<Rightarrow> env \<Rightarrow> os_state \<Rightarrow> string \<Rightarrow> string option \<times> os_state" where
  "get_file_path cfg e s relative_path =
     (if CACHE_ENABLED cfg then
        (let cache_file = path_div (CACHE_PATH cfg) relative_path in
         if path_exists e s cache_file then (Some cache_file, s)
         else
           (let (ok, s1) = ensure_mounted e s in
            if \<not> ok then (None, s1)
            else
              (let network_file = path_div (MOUNT_POINT cfg) relative_path in
               if \<not> path_exists e s1 network_file then (None, s1)
               else if \<not> makedirs_works e (dirname cache_file)
               then (Some network_file,
                     log_msg ERROR (''Error caching file '' @ relative_path) s1)
               else
                 (let s2 = s1\<lparr>local_paths := local_paths s1 \<union> dir_chain (dirname cache_file)\<rparr>
                  in if copy_works e network_file cache_file
                     then (Some cache_file, s2\<lparr>local_paths := insert cache_file (local_paths s2)\<rparr>)
                     else (Some network_file,
                           log_msg ERROR (''Error caching file '' @ relative_path) s2)))))
      else
        (let (ok, s1) = ensure_mounted e s in
         if \<not> ok then (None, s1)
         else
           (let network_file = path_div (MOUNT_POINT cfg) relative_path
            in (if path_exists e s1 network_file then Some network_file else None, s1))))"

section \<open>utils.clean\_cache\<close>

text \<open>
  The cache directory as \<^verbatim>\<open>os.walk\<close> sees it: its files in walk order, each with what
  \<^verbatim>\<open>os.path.getsize\<close> and \<^verbatim>\<open>os.path.getatime\<close> return. Sizes in gigabytes and the
  limit are Python floats; the division by \<^verbatim>\<open>1024**3\<close> and the product with \<^verbatim>\<open>0.8\<close>
  are modelled in exact arithmetic.
\<close>

record cache_file =
  cf_path :: string
  cf_size :: nat
  cf_atime :: real

type_synonym cache_tree = "cache_file list"

definition cache_size :: "cache_tree \<Rightarrow> nat" where
  "cache_size c = sum_list (map cf_size c)"

definition size_gb :: "cache_tree \<Rightarrow> real" where
  "size_gb c = real (cache_size c) / 1024 ^ 3"

definition os_remove :: "string \<Rightarrow> cache_tree \<Rightarrow> cache_tree" where
  "os_remove p c = filter (\<lambda>f. cf_path f \<noteq> p) c"

text \<open>
  The removal loop. \<open>rm p\<close> says whether \<^verbatim>\<open>os.remove(p)\<close> returns; when it raises,
  the sweep is abandoned where it stands (\<open>Raised\<close>). \<open>new_size\<close> is unbound until
  the first pass through the body.
\<close>

datatype sweep = Raised cache_tree | Swept cache_tree "real option"

fun remove_loop ::
  "(string \<Rightarrow> bool) \<Rightarrow> real \<Rightarrow> cache_file list \<Rightarrow> cache_tree \<Rightarrow> real option \<Rightarrow> sweep" where
  "remove_loop rm max_size_gb [] c new_size = Swept c new_size"
| "remove_loop rm max_size_gb (f # files) c new_size =
     (if \<not> rm (cf_path f) then Raised c
      else
        (let c1 = os_remove (cf_path f) c;
             n = size_gb c1
         in if n < max_size_gb * 0.8 then Swept c1 (Some n)
            else remove_loop rm max_size_gb files c1 (Some n)))"

text \<open>
  \<^verbatim>\<open>clean_cache\<close> returns nothing; its effects are the files left and the log. Reading
  the unbound \<open>new_size\<close> after an empty loop raises, which the handler logs like any
  other error. \<^verbatim>\<open>list.sort\<close> is stable, as \<open>sort_key\<close> is.
\<close>

definition clean_cache ::
  "(string \<Rightarrow> bool) \<Rightarrow> cache_tree \<Rightarrow> real \<Rightarrow> cache_tree \<times> log_record list" where
  "clean_cache rm c max_size_gb =
     (if size_gb c > max_size_gb then
        (case remove_loop rm max_size_gb (sort_key cf_atime c) c None of
           Raised c1 \<Rightarrow>
             (c1, [(INFO, ''Cache size exceeds limit, cleaning...''),
                   (ERROR, ''Error cleaning cache'')])
         | Swept c1 None \<Rightarrow>
             (c1, [(INFO, ''Cache size exceeds limit, cleaning...''),
                   (ERROR, ''Error cleaning cache'')])
         | Swept c1 (Some n) \<Rightarrow>
             (c1, [(INFO, ''Cache size exceeds limit, cleaning...''),
                   (INFO, ''Cache cleaned'')]))
      else (c, []))"


section \<open>Text\<close>

text \<open>
  A Python \<^verbatim>\<open>str\<close> is modelled by its UTF-8 bytes. A file name that is not valid UTF-8
  reaches Python as a \<^verbatim>\<open>str\<close> with lone surrogates (\<^verbatim>\<open>os.listdir\<close> decodes with
  \<^verbatim>\<open>surrogateescape\<close>); in the model it stays the bytes it is on disk. Such a \<^verbatim>\<open>str\<close>
  cannot be encoded, so \<^verbatim>\<open>sqlite3\<close> raises when asked to bind it, and a text column that
  is not valid UTF-8 cannot be fetched as \<^verbatim>\<open>str\<close>.
\<close>

definition byte :: "char \<Rightarrow> nat" where
  "byte c = of_char c"

definition is_cont :: "char \<Rightarrow> bool" where
  "is_cont c = (0x80 \<le> byte c \<and> byte c \<le> 0xBF)"

text \<open>The first \<open>n\<close> bytes are there and are continuation bytes.\<close>

definition conts :: "string \<Rightarrow> nat \<Rightarrow> bool" where
  "conts bs n = (n \<le> length bs \<and> list_all is_cont (take n bs))"

text \<open>
  The number of bytes of the well-formed UTF-8 character at the head of a byte string, 0
  when there is none: no overlong forms, no surrogates, nothing above U+10FFFF.
\<close>

definition utf8_width :: "string \<Rightarrow> nat" where
  "utf8_width s =
     (case s of
        [] \<Rightarrow> 0
      | b # bs \<Rightarrow>
          if byte b < 0x80 then 1
          else if 0xC2 \<le> byte b \<and> byte b \<le> 0xDF then
            (if conts bs 1 then 2 else 0)
          else if 0xE0 \<le> byte b \<and> byte b \<le> 0xEF then
            (if conts bs 2 \<and>
                (if byte b = 0xE0 then 0xA0 else 0x80) \<le> byte (hd bs) \<and>
                byte (hd bs) \<le> (if byte b = 0xED then 0x9F else 0xBF)
             then 3 else 0)
          else if 0xF0 \<le> byte b \<and> byte b \<le> 0xF4 then
            (if conts bs 3 \<and>
                (if byte b = 0xF0 then 0x90 else 0x80) \<le> byte (hd bs) \<and>
                byte (hd bs) \<le> (if byte b = 0xF4 then 0x8F else 0xBF)
             then 4 else 0)
          else 0)"

fun valid_utf8 :: "string \<Rightarrow> bool" where
  "valid_utf8 [] = True"
| "valid_utf8 (b # bs) =
     (0 < utf8_width (b # bs) \<and> valid_utf8 (drop (utf8_width (b # bs) - 1) bs))"

text \<open>An integer \<^verbatim>\<open>sqlite3\<close> can bind: beyond 64 bits it raises \<^verbatim>\<open>OverflowError\<close>.\<close>

definition sqlite_int :: "int \<Rightarrow> bool" where
  "sqlite_int n = (- (2 ^ 63) \<le> n \<and> n < 2 ^ 63)"

section \<open>The library database\<close>

text \<open>
  The two tables of \<^verbatim>\<open>init_db\<close>, each a list of rows in insertion order. The scanner
  always writes text into \<^verbatim>\<open>artist\<close>, \<^verbatim>\<open>year\<close>, \<^verbatim>\<open>directory\<close> and \<^verbatim>\<open>file_path\<close>, so
  only \<^verbatim>\<open>cover_art\<close> is nullable here.
\<close>

record album_row =
  a_id :: int
  a_title :: string
  a_artist :: string
  a_year :: string
  a_directory :: string
  a_cover_art :: "string option"
  a_last_updated :: int

record track_row =
  t_id :: int
  t_album_id :: int
  t_title :: string
  t_artist :: string
  t_track_number :: int
  t_disc_number :: int
  t_duration :: real
  t_file_path :: string

record database =
  albums :: "album_row list"
  tracks :: "track_row list"

definition empty_db :: database where
  "empty_db = \<lparr>albums = [], tracks = []\<rparr>"

text \<open>
  SQLite gives a row inserted without an explicit \<^verbatim>\<open>INTEGER PRIMARY KEY\<close> the largest
  rowid of the table plus one (1 in an empty table). The rowid is chosen before conflict
  resolution deletes anything. (Beyond the largest 64-bit rowid SQLite picks unused
  rowids at random; the model does not go there.)
\<close>

definition new_rowid :: "int list \<Rightarrow> int" where
  "new_rowid ids = (case ids of [] \<Rightarrow> 1 | x # xs \<Rightarrow> fold max xs x + 1)"

text \<open>
  \<^verbatim>\<open>cursor.execute('INSERT OR REPLACE INTO albums (title, artist, year, directory,
  cover_art, last_updated) ...')\<close>. Binding the parameters raises when a text is not
  valid UTF-8 or the integer does not fit 64 bits: the result is \<open>None\<close> and nothing is
  written. Otherwise rows that hold the same \<^verbatim>\<open>directory\<close> (the \<^verbatim>\<open>UNIQUE\<close> column) are
  deleted and the new row is inserted; the first component is \<^verbatim>\<open>cursor.lastrowid\<close>.
\<close>

definition insert_or_replace_album ::
  "database \<Rightarrow> string \<Rightarrow> string \<Rightarrow> string \<Rightarrow> string \<Rightarrow> string option \<Rightarrow> int \<Rightarrow>
   (int \<times> database) option" where
  "insert_or_replace_album db title artist year directory cover_art last_updated =
     (if valid_utf8 title \<and> valid_utf8 artist \<and> valid_utf8 year \<and> valid_utf8 directory \<and>
         (case cover_art of None \<Rightarrow> True | Some p \<Rightarrow> valid_utf8 p) \<and> sqlite_int last_updated
      then
        (let rowid = new_rowid (map a_id (albums db));
             kept = filter (\<lambda>r. a_directory r \<noteq> directory) (albums db);
             row = \<lparr>a_id = rowid, a_title = title, a_artist = artist, a_year = year,
                    a_directory = directory, a_cover_art = cover_art,
                    a_last_updated = last_updated\<rparr>
         in Some (rowid, db\<lparr>albums := kept @ [row]\<rparr>))
      else None)"

text \<open>
  The \<^verbatim>\<open>INSERT OR REPLACE INTO tracks\<close>, keyed on \<^verbatim>\<open>file_path\<close>. The album id is the
  rowid just returned and the duration a float, which always bind.
\<close>

definition insert_or_replace_track ::
  "database \<Rightarrow> int \<Rightarrow> string \<Rightarrow> string \<Rightarrow> int \<Rightarrow> int \<Rightarrow> real \<Rightarrow> string \<Rightarrow>
   (int \<times> database) option" where
  "insert_or_replace_track db album_id title artist track_number disc_number duration file_path =
     (if valid_utf8 title \<and> valid_utf8 artist \<and> sqlite_int track_number \<and>
         sqlite_int disc_number \<and> valid_utf8 file_path
      then
        (let rowid = new_rowid (map t_id (tracks db));
             kept = filter (\<lambda>r. t_file_path r \<noteq> file_path) (tracks db);
             row = \<lparr>t_id = rowid, t_album_id = album_id, t_title = title, t_artist = artist,
                    t_track_number = track_number, t_disc_number = disc_number,
                    t_duration = duration, t_file_path = file_path\<rparr>
         in Some (rowid, db\<lparr>tracks := kept @ [row]\<rparr>))
      else None)"

section \<open>music\_library.MusicLibrary: scanning\<close>

definition SUPPORTED_FORMATS :: "string list" where
  "SUPPORTED_FORMATS =
     [''.flac'', ''.wav'', ''.alac'', ''.ape'', ''.aiff'', ''.dsd'', ''.dsf'', ''.dff'', ''.wv'']"

definition COVER_NAMES :: "string list" where
  "COVER_NAMES = [''cover.jpg'', ''folder.jpg'', ''album.jpg'', ''front.jpg'', ''artwork.jpg'']"

text \<open>Lower case of an ASCII letter; every other byte is left alone.\<close>

definition to_lower :: "char \<Rightarrow> char" where
  "to_lower c =
     (case map_of (zip ''ABCDEFGHIJKLMNOPQRSTUVWXYZ'' ''abcdefghijklmnopqrstuvwxyz'') c of
        Some l \<Rightarrow> l
      | None \<Rightarrow> c)"

text \<open>
  \<^verbatim>\<open>re.IGNORECASE\<close> on a \<^verbatim>\<open>str\<close> pattern folds case by Python's Unicode tables. A
  literal ASCII character of the pattern matches the characters whose lower case it is:
  itself and its capital, and beyond ASCII only U+0130 for \<^verbatim>\<open>i\<close> and U+212A for
  \<^verbatim>\<open>k\<close>; the compiler adds U+0131 to \<^verbatim>\<open>i\<close> and U+017F to \<^verbatim>\<open>s\<close>. These are their
  UTF-8 bytes.
\<close>

definition ignorecase_alternatives :: "char \<Rightarrow> string list" where
  "ignorecase_alternatives p =
     (if to_lower p = CHR ''i'' then [[CHR 0xC4, CHR 0xB0], [CHR 0xC4, CHR 0xB1]]
      else if to_lower p = CHR ''s'' then [[CHR 0xC5, CHR 0xBF]]
      else if to_lower p = CHR ''k'' then [[CHR 0xE2, CHR 0x84, CHR 0xAA]]
      else [])"

text \<open>A pattern of literal ASCII characters matches the whole of a text, ignoring case.\<close>

fun match_ignorecase :: "string \<Rightarrow> string \<Rightarrow> bool" where
  "match_ignorecase [] t = (t = [])"
| "match_ignorecase (p # ps) t =
     ((case t of [] \<Rightarrow> False | c # cs \<Rightarrow> to_lower c = to_lower p \<and> match_ignorecase ps cs) \<or>
      (\<exists>alt \<in> set (ignorecase_alternatives p).
          prefix alt t \<and> match_ignorecase ps (drop (length alt) t)))"

text \<open>
  \<^verbatim>\<open>re.compile(f".*\\{ext}$", re.IGNORECASE).search\<close> for an extension that starts with
  a dot followed by letters: the escaped dot and the letters are literals, \<^verbatim>\<open>.*\<close> may
  match nothing, the search may start anywhere, and \<^verbatim>\<open>$\<close> matches at the end of the name
  or before a newline that ends it. So the name matches when one of its suffixes is the
  extension up to case, with or without a final newline.
\<close>

definition ext_pattern :: "string \<Rightarrow> string \<Rightarrow> bool" where
  "ext_pattern ext name =
     (\<exists>suf \<in> set (suffixes name).
         match_ignorecase ext suf \<or> match_ignorecase (ext @ [CHR 0x0A]) suf)"

text \<open>Python's \<^verbatim>\<open>x or d\<close> on an optional value: \<open>d\<close> when \<open>x\<close> is \<^verbatim>\<open>None\<close> or falsy.\<close>

definition or_str :: "string option \<Rightarrow> string \<Rightarrow> string" where
  "or_str x d = (case x of None \<Rightarrow> d | Some v \<Rightarrow> if v = [] then d else v)"

definition or_int :: "int option \<Rightarrow> int \<Rightarrow> int" where
  "or_int x d = (case x of None \<Rightarrow> d | Some v \<Rightarrow> if v = 0 then d else v)"

definition or_real :: "real option \<Rightarrow> real \<Rightarrow> real" where
  "or_real x d = (case x of None \<Rightarrow> d | Some v \<Rightarrow> if v = 0 then d else v)"

text \<open>\<^verbatim>\<open>TinyTag.get\<close> raises on a path that cannot be opened, as any path under an
  unmounted mount point.\<close>

definition tinytag_get :: "env \<Rightarrow> os_state \<Rightarrow> string \<Rightarrow> tag option" where
  "tinytag_get e s p = (if mounted s then read_tags e p else None)"

text \<open>The loop \<^verbatim>\<open>for ext in SUPPORTED_FORMATS: music_files.extend(list_files(...))\<close>.\<close>

fun music_files_loop ::
  "config \<Rightarrow> env \<Rightarrow> os_state \<Rightarrow> string \<Rightarrow> string list \<Rightarrow> string list \<times> os_state" where
  "music_files_loop cfg e s dir [] = ([], s)"
| "music_files_loop cfg e s dir (ext # exts) =
     (let (fs, s1) = list_files cfg e s dir (Some (ext_pattern ext));
          (rest, s2) = music_files_loop cfg e s1 dir exts
      in (fs @ rest, s2))"

fun find_cover_art :: "config \<Rightarrow> env \<Rightarrow> os_state \<Rightarrow> string \<Rightarrow> string list \<Rightarrow> string option" where
  "find_cover_art cfg e s album_dir [] = None"
| "find_cover_art cfg e s album_dir (art_file # rest) =
     (let art_path = os_path_join album_dir art_file in
      if path_exists e s (os_path_join (MOUNT_POINT cfg) art_path) then Some art_path
      else find_cover_art cfg e s album_dir rest)"

text \<open>Album title, artist and year from the first music file, and the state with the
  warning logged when its tags cannot be read.\<close>

definition album_metadata ::
  "config \<Rightarrow> env \<Rightarrow> os_state \<Rightarrow> string \<Rightarrow> string \<Rightarrow> (string \<times> string \<times> string) \<times> os_state" where
  "album_metadata cfg e s album_dir first_file =
     (let first_file_path = os_path_join (os_path_join (MOUNT_POINT cfg) album_dir) first_file in
      case tinytag_get e s first_file_path of
        Some tg \<Rightarrow>
          ((or_str (tag_album tg) (basename album_dir),
            or_str (tag_albumartist tg) (or_str (tag_artist tg) ''Unknown Artist''),
            or_str (tag_year tg) ''Unknown Year''), s)
      | None \<Rightarrow>
          ((basename album_dir, ''Unknown Artist'', ''Unknown Year''),
           log_msg WARNING (''Error reading tags from '' @ first_file_path) s))"

text \<open>The body of the track loop up to the \<^verbatim>\<open>INSERT\<close>: title, artist, track number,
  disc number and duration of one file.\<close>

definition track_fields ::
  "config \<Rightarrow> env \<Rightarrow> os_state \<Rightarrow> string \<Rightarrow> string \<Rightarrow> string \<Rightarrow>
   (string \<times> string \<times> int \<times> int \<times> real) \<times> os_state" where
  "track_fields cfg e s album_artist album_dir file_name =
     (let file_path = os_path_join album_dir file_name;
          full_path = os_path_join (MOUNT_POINT cfg) file_path in
      case tinytag_get e s full_path of
        Some tg \<Rightarrow>
          ((or_str (tag_title tg) (splitext_root file_name),
            or_str (tag_artist tg) album_artist,
            or_int (tag_track tg) 0,
            or_int (tag_disc tg) 1,
            or_real (tag_duration tg) 0), s)
      | None \<Rightarrow>
          ((splitext_root file_name, album_artist, 0, 1, 0),
           log_msg WARNING (''Error reading tags from '' @ full_path) s))"

text \<open>
  The track loop. An \<^verbatim>\<open>INSERT\<close> that raises leaves the loop (and the function, through
  its outer handler): the first component says whether the loop ran to its end. The rows
  written before stay in the open transaction.
\<close>

fun process_tracks ::
  "config \<Rightarrow> env \<Rightarrow> os_state \<Rightarrow> database \<Rightarrow> int \<Rightarrow> string \<Rightarrow> string \<Rightarrow> string list \<Rightarrow>
   bool \<times> os_state \<times> database" where
  "process_tracks cfg e s db album_id album_artist album_dir [] = (True, s, db)"
| "process_tracks cfg e s db album_id album_artist album_dir (file_name # rest) =
     (let ((track_title, track_artist, track_number, disc_number, duration), s1) =
            track_fields cfg e s album_artist album_dir file_name
      in case insert_or_replace_track db album_id track_title track_artist track_number
                disc_number duration (os_path_join album_dir file_name) of
           None \<Rightarrow> (False, s1, db)
         | Some (rowid, db1) \<Rightarrow>
             process_tracks cfg e s1 db1 album_id album_artist album_dir rest)"

text \<open>
  \<^verbatim>\<open>_process_album_directory\<close>. Its outer handler catches what an \<^verbatim>\<open>INSERT\<close> raises,
  logs it and returns 0. (A database that cannot be written at all is not modelled.)
\<close>

definition process_album_directory ::
  "config \<Rightarrow> env \<Rightarrow> os_state \<Rightarrow> database \<Rightarrow> string \<Rightarrow> nat \<times> os_state \<times> database" where
  "process_album_directory cfg e s db album_dir =
     (let (music_files, s1) = music_files_loop cfg e s album_dir SUPPORTED_FORMATS in
      if music_files = [] then (0, s1, db)
      else
        (let cover_art = find_cover_art cfg e s1 album_dir COVER_NAMES;
             ((album_title, album_artist, album_year), s2) =
               album_metadata cfg e s1 album_dir (hd music_files)
         in case insert_or_replace_album db album_title album_artist album_year album_dir
                   cover_art (clock e) of
              None \<Rightarrow>
                (0, log_msg ERROR (''Error processing album directory '' @ album_dir) s2, db)
            | Some (album_id, db1) \<Rightarrow>
                (let (finished, s3, db2) =
                       process_tracks cfg e s2 db1 album_id album_artist album_dir music_files
                 in if finished then (1, s3, db2)
                    else (0, log_msg ERROR (''Error processing album directory '' @ album_dir) s3,
                          db2))))"

text \<open>The inner loop of \<^verbatim>\<open>scan_library\<close> over the subdirectories of a directory that
  holds no music files itself.\<close>

fun scan_subdirs ::
  "config \<Rightarrow> env \<Rightarrow> os_state \<Rightarrow> database \<Rightarrow> nat \<Rightarrow> string \<Rightarrow> string list \<Rightarrow>
   nat \<times> os_state \<times> database" where
  "scan_subdirs cfg e s db albums_found dir_name [] = (albums_found, s, db)"
| "scan_subdirs cfg e s db albums_found dir_name (subdir # rest) =
     (let (k, s1, db1) = process_album_directory cfg e s db (os_path_join dir_name subdir)
      in scan_subdirs cfg e s1 db1 (albums_found + k) dir_name rest)"

definition startswith_dot :: "string \<Rightarrow> bool" where
  "startswith_dot name = (case name of [] \<Rightarrow> False | c # cs \<Rightarrow> c = CHR ''.'')"

text \<open>The outer loop \<^verbatim>\<open>for dir_name in music_dirs\<close>.\<close>

fun scan_dirs ::
  "config \<Rightarrow> env \<Rightarrow> os_state \<Rightarrow> database \<Rightarrow> nat \<Rightarrow> string list \<Rightarrow> nat \<times> os_state \<times> database" where
  "scan_dirs cfg e s db albums_found [] = (albums_found, s, db)"
| "scan_dirs cfg e s db albums_found (dir_name # rest) =
     (if startswith_dot dir_name then scan_dirs cfg e s db albums_found rest
      else
        (let (music_files, s1) = music_files_loop cfg e s dir_name SUPPORTED_FORMATS in
         if music_files = [] then
           (let (subdirs, s2) = list_directories cfg e s1 dir_name;
                (n, s3, db1) = scan_subdirs cfg e s2 db albums_found dir_name subdirs
            in scan_dirs cfg e s3 db1 n rest)
         else
           (let (k, s2, db1) = process_album_directory cfg e s1 db dir_name
            in scan_dirs cfg e s2 db1 (albums_found + k) rest)))"

text \<open>
  \<^verbatim>\<open>scan_library\<close>: the result, the state and the committed database. The handler
  around the loop (\<^verbatim>\<open>return False\<close> without a commit) is for a database that cannot be
  reached, which the model does not have.
\<close>

definition scan_library :: "config \<Rightarrow> env \<Rightarrow> os_state \<Rightarrow> database \<Rightarrow> bool \<times> os_state \<times> database" where
  "scan_library cfg e s db =
     (let (ok, s1) = ensure_mounted e (log_msg INFO ''Starting music library scan...'' s) in
      if \<not> ok then
        (False, log_msg ERROR ''Cannot scan library: network share not mounted'' s1, db)
      else
        (let (music_dirs, s2) = list_directories cfg e s1 [];
             (albums_found, s3, db1) = scan_dirs cfg e s2 db 0 music_dirs
         in (True, log_msg INFO ''Library scan complete'' s3, db1)))"

section \<open>music\_library.MusicLibrary: queries\<close>

text \<open>
  SQLite's \<^verbatim>\<open>LIKE\<close> reads pattern and text as C strings, up to the first NUL, one
  character at a time (\<^verbatim>\<open>sqlite3Utf8Read\<close>): a byte below \<^verbatim>\<open>0xC0\<close> is a character by
  itself; a byte from \<^verbatim>\<open>0xC0\<close> on takes every continuation byte that follows, and the
  value is accumulated in 32 bits and replaced by \<^verbatim>\<open>0xFFFD\<close> when it is below \<^verbatim>\<open>0x80\<close>,
  a surrogate, \<^verbatim>\<open>0xFFFE\<close> or \<^verbatim>\<open>0xFFFF\<close>.
\<close>

definition c_str :: "string \<Rightarrow> string" where
  "c_str t = takeWhile (\<lambda>c. byte c \<noteq> 0) t"

definition utf8_trans1 :: "nat \<Rightarrow> nat" where
  "utf8_trans1 b =
     (if b < 0xE0 then b mod 32
      else if b < 0xF0 then b mod 16
      else if b < 0xF8 then b mod 8
      else if b < 0xFC then b mod 4
      else if b < 0xFE then b mod 2
      else 0)"

definition utf8_value :: "nat \<Rightarrow> nat list \<Rightarrow> nat" where
  "utf8_value lead rest =
     (let c = fold (\<lambda>x c. (c * 64 + x mod 64) mod 2 ^ 32) rest (utf8_trans1 lead)
      in if c < 0x80 \<or> (0xD800 \<le> c \<and> c \<le> 0xDFFF) \<or> c = 0xFFFE \<or> c = 0xFFFF
         then 0xFFFD else c)"

function sqlite_chars :: "string \<Rightarrow> nat list" where
  "sqlite_chars [] = []"
| "sqlite_chars (b # bs) =
     (if 0xC0 \<le> byte b
      then utf8_value (byte b) (map byte (takeWhile is_cont bs)) #
           sqlite_chars (dropWhile is_cont bs)
      else byte b # sqlite_chars bs)"
  by pat_completeness auto
termination
  by (relation "measure length") (auto simp add: le_imp_less_Suc length_dropWhile_le)

definition ascii_lower :: "nat \<Rightarrow> nat" where
  "ascii_lower n = (if 65 \<le> n \<and> n \<le> 90 then n + 32 else n)"

text \<open>
  \<^verbatim>\<open>patternCompare\<close> without an escape character, on characters: \<^verbatim>\<open>%\<close> (37) matches any
  run of characters, \<^verbatim>\<open>_\<close> (95) any one character, and any other character matches
  itself, or, when both are below \<^verbatim>\<open>0x80\<close>, a character with the same lower case.
\<close>

fun like_chars :: "nat list \<Rightarrow> nat list \<Rightarrow> bool" where
  "like_chars [] t = (t = [])"
| "like_chars (p # ps) [] = (p = 37 \<and> like_chars ps [])"
| "like_chars (p # ps) (c # cs) =
     (if p = 37 then like_chars ps (c # cs) \<or> like_chars (p # ps) cs
      else (p = c \<or> (p < 0x80 \<and> c < 0x80 \<and> ascii_lower p = ascii_lower c) \<or> p = 95) \<and>
           like_chars ps cs)"

definition sqlite_like :: "string \<Rightarrow> string \<Rightarrow> bool" where
  "sqlite_like pattern text = like_chars (sqlite_chars (c_str pattern)) (sqlite_chars (c_str text))"

record track_info =
  ti_title :: string
  ti_artist :: string
  ti_track_number :: int
  ti_disc_number :: int
  ti_duration :: real
  ti_file_path :: string

record album_info =
  ai_id :: int
  ai_title :: string
  ai_artist :: string
  ai_year :: string
  ai_directory :: string
  ai_cover_art :: "string option"
  ai_tracks :: "track_info list"

text \<open>\<^verbatim>\<open>SELECT ... FROM tracks WHERE album_id = ? ORDER BY disc_number, track_number,
  title\<close>: the rows, and each row turned into its dictionary.\<close>

definition track_dict :: "track_row \<Rightarrow> track_info" where
  "track_dict r =
     \<lparr>ti_title = t_title r, ti_artist = t_artist r, ti_track_number = t_track_number r,
      ti_disc_number = t_disc_number r, ti_duration = t_duration r,
      ti_file_path = t_file_path r\<rparr>"

definition album_tracks :: "database \<Rightarrow> int \<Rightarrow> track_row list" where
  "album_tracks db album_id =
     sort_key (\<lambda>r. (t_disc_number r, t_track_number r, t_title r))
       (filter (\<lambda>r. t_album_id r = album_id) (tracks db))"

definition select_tracks :: "database \<Rightarrow> int \<Rightarrow> track_info list" where
  "select_tracks db album_id = map track_dict (album_tracks db album_id)"

definition album_dict :: "database \<Rightarrow> album_row \<Rightarrow> album_info" where
  "album_dict db r =
     \<lparr>ai_id = a_id r, ai_title = a_title r, ai_artist = a_artist r, ai_year = a_year r,
      ai_directory = a_directory r, ai_cover_art = a_cover_art r,
      ai_tracks = select_tracks db (a_id r)\<rparr>"

text \<open>
  Fetching raises when a text column of a fetched row is not valid UTF-8. These are the
  columns the two \<^verbatim>\<open>SELECT\<close>s of a query fetch for an album row.
\<close>

definition fetchable :: "database \<Rightarrow> album_row \<Rightarrow> bool" where
  "fetchable db r =
     (valid_utf8 (a_title r) \<and> valid_utf8 (a_artist r) \<and> valid_utf8 (a_year r) \<and>
      valid_utf8 (a_directory r) \<and>
      (case a_cover_art r of None \<Rightarrow> True | Some p \<Rightarrow> valid_utf8 p) \<and>
      list_all (\<lambda>t. valid_utf8 (t_title t) \<and> valid_utf8 (t_artist t) \<and> valid_utf8 (t_file_path t))
        (album_tracks db (a_id r)))"

text \<open>
  \<^verbatim>\<open>search_albums\<close>: \<^verbatim>\<open>WHERE title LIKE ? OR artist LIKE ? ORDER BY title LIMIT 10\<close>
  with both parameters \<^verbatim>\<open>f"%{query}%"\<close>. \<^verbatim>\<open>ORDER BY\<close> compares text byte by byte (the
  default \<^verbatim>\<open>BINARY\<close> collation), which is the order of \<open>string\<close>; rows with equal titles
  come in no promised order (here: as stored). The handler returns the empty list when
  anything raises: a query that cannot be encoded, a pattern of more than 50000 bytes
  (SQLite's limit on \<^verbatim>\<open>LIKE\<close> patterns), a row that cannot be fetched.
\<close>

definition search_albums :: "database \<Rightarrow> string \<Rightarrow> album_info list" where
  "search_albums db query =
     (let pat = ''%'' @ query @ ''%'' in
      if \<not> valid_utf8 query \<or> 50000 < length pat then []
      else
        (let rows = take 10 (sort_key a_title
                      (filter (\<lambda>r. sqlite_like pat (a_title r) \<or> sqlite_like pat (a_artist r))
                         (albums db)))
         in if list_all (fetchable db) rows then map (album_dict db) rows else []))"

text \<open>\<^verbatim>\<open>get_album_by_id\<close>: \<^verbatim>\<open>cursor.fetchone()\<close> of \<^verbatim>\<open>WHERE id = ?\<close>; the handler
  returns \<^verbatim>\<open>None\<close> when the row cannot be fetched.\<close>

definition get_album_by_id :: "database \<Rightarrow> int \<Rightarrow> album_info option" where
  "get_album_by_id db album_id =
     (case filter (\<lambda>r. a_id r = album_id) (albums db) of
        [] \<Rightarrow> None
      | r # rest \<Rightarrow> if fetchable db r then Some (album_dict db r) else None)"

section \<open>What the scan sees while the share is mounted\<close>

text \<open>
  The listings that \<^verbatim>\<open>list_files\<close> and \<^verbatim>\<open>list_directories\<close> return once
  \<^verbatim>\<open>ensure_mounted\<close> has succeeded, and what the loops of the scan make of them. They
  are used to state the properties of the scan; each is proved below to be what the code
  computes in a mounted state.
\<close>

definition regular_files :: "config \<Rightarrow> env \<Rightarrow> string \<Rightarrow> string list" where
  "regular_files cfg e path =
     (case listdir e (full_path_of cfg path) of
        None \<Rightarrow> []
      | Some ents \<Rightarrow> map fst (filter (\<lambda>(f, k). k = RegularFile) ents))"

definition subdirectories :: "config \<Rightarrow> env \<Rightarrow> string \<Rightarrow> string list" where
  "subdirectories cfg e path =
     (case listdir e (full_path_of cfg path) of
        None \<Rightarrow> []
      | Some ents \<Rightarrow> map fst (filter (\<lambda>(d, k). k = Directory) ents))"

text \<open>The music files of a directory, in the order the extension loop collects them.\<close>

definition music_files :: "config \<Rightarrow> env \<Rightarrow> string \<Rightarrow> string list" where
  "music_files cfg e dir =
     concat (map (\<lambda>ext. filter (ext_pattern ext) (regular_files cfg e dir)) SUPPORTED_FORMATS)"

text \<open>The directories the loops of \<^verbatim>\<open>scan_library\<close> hand to
  \<^verbatim>\<open>_process_album_directory\<close>, in order, for a list of top-level names.\<close>

definition album_candidates :: "config \<Rightarrow> env \<Rightarrow> string list \<Rightarrow> string list" where
  "album_candidates cfg e tops =
     concat (map (\<lambda>d. if startswith_dot d then []
                       else if music_files cfg e d \<noteq> [] then [d]
                       else map (os_path_join d) (subdirectories cfg e d)) tops)"

text \<open>The database \<^verbatim>\<open>_process_album_directory\<close> leaves behind.\<close>

definition album_upsert :: "config \<Rightarrow> env \<Rightarrow> os_state \<Rightarrow> string \<Rightarrow> database \<Rightarrow> database" where
  "album_upsert cfg e s album_dir db = snd (snd (process_album_directory cfg e s db album_dir))"

text \<open>Two states with the same mount table and the same local disk (the traces may
  differ).\<close>

definition same_disk :: "os_state \<Rightarrow> os_state \<Rightarrow> bool" where
  "same_disk s t = (mounted t = mounted s \<and> local_paths t = local_paths s)"

text \<open>Nothing was taken from the log.\<close>

definition log_kept :: "os_state \<Rightarrow> os_state \<Rightarrow> bool" where
  "log_kept s t = (set (logged s) \<subseteq> set (logged t))"

text \<open>A mounted state, to read off what the tag reader returns while the share is
  mounted.\<close>

definition mounted_state :: os_state where
  "mounted_state = \<lparr>mounted = True, local_paths = {}, commands = [], logged = []\<rparr>"

text \<open>Title, artist and year that album processing derives for a directory, and whether
  the album \<^verbatim>\<open>INSERT\<close> can bind them.\<close>

definition album_fields :: "config \<Rightarrow> env \<Rightarrow> string \<Rightarrow> string \<times> string \<times> string" where
  "album_fields cfg e d = fst (album_metadata cfg e mounted_state d (hd (music_files cfg e d)))"

definition album_artist :: "config \<Rightarrow> env \<Rightarrow> string \<Rightarrow> string" where
  "album_artist cfg e d = fst (snd (album_fields cfg e d))"

definition album_storable :: "config \<Rightarrow> env \<Rightarrow> string \<Rightarrow> bool" where
  "album_storable cfg e d =
     (case album_fields cfg e d of
        (title, artist, year) \<Rightarrow>
          valid_utf8 title \<and> valid_utf8 artist \<and> valid_utf8 year \<and> valid_utf8 d \<and>
          sqlite_int (clock e))"

text \<open>The directory holds music files and its album row can be written.\<close>

definition album_written :: "config \<Rightarrow> env \<Rightarrow> string \<Rightarrow> bool" where
  "album_written cfg e d = (music_files cfg e d \<noteq> [] \<and> album_storable cfg e d)"

text \<open>The values the track loop derives for a file, under a given album artist, and
  whether the track \<^verbatim>\<open>INSERT\<close> can bind them.\<close>

definition track_values ::
  "config \<Rightarrow> env \<Rightarrow> string \<Rightarrow> string \<Rightarrow> string \<Rightarrow> string \<times> string \<times> int \<times> int \<times> real" where
  "track_values cfg e artist d f = fst (track_fields cfg e mounted_state artist d f)"

definition track_storable :: "config \<Rightarrow> env \<Rightarrow> string \<Rightarrow> string \<Rightarrow> string \<Rightarrow> bool" where
  "track_storable cfg e artist d f =
     (case track_values cfg e artist d f of
        (title, track_artist, track_number, disc_number, duration) \<Rightarrow>
          valid_utf8 title \<and> valid_utf8 track_artist \<and> sqlite_int track_number \<and>
          sqlite_int disc_number \<and> valid_utf8 (os_path_join d f))"

text \<open>The files of a directory whose track rows album processing writes: none when the
  album row cannot be written, else the music files up to the first one whose \<^verbatim>\<open>INSERT\<close>
  raises.\<close>

definition written_files :: "config \<Rightarrow> env \<Rightarrow> string \<Rightarrow> string list" where
  "written_files cfg e d =
     (if album_written cfg e d
      then takeWhile (track_storable cfg e (album_artist cfg e d) d) (music_files cfg e d)
      else [])"

text \<open>The \<^verbatim>\<open>PRIMARY KEY\<close> and \<^verbatim>\<open>UNIQUE\<close> constraints of the schema, which every
  state of the database file satisfies.\<close>

definition db_constraints :: "database \<Rightarrow> bool" where
  "db_constraints db =
     (distinct (map a_id (albums db)) \<and> distinct (map a_directory (albums db)) \<and>
      distinct (map t_id (tracks db)) \<and> distinct (map t_file_path (tracks db)))"

text \<open>A name as a directory listing gives it: not empty, without a separator.\<close>

definition entry_name :: "string \<Rightarrow> bool" where
  "entry_name n = (n \<noteq> [] \<and> CHR ''/'' \<notin> set n)"

section \<open>Substring search, as the specification words it\<close>

text \<open>
  Two characters are the same up to the case of ASCII letters; a query is a substring of
  a text up to case when its characters are, one by one, those of a contiguous stretch of
  the text. Characters are those of the UTF-8 decoding above, which on valid UTF-8 gives
  the code points.
\<close>

definition same_letter :: "nat \<Rightarrow> nat \<Rightarrow> bool" where
  "same_letter p c = (p = c \<or> (p < 0x80 \<and> c < 0x80 \<and> ascii_lower p = ascii_lower c))"

definition ci_substring :: "string \<Rightarrow> string \<Rightarrow> bool" where
  "ci_substring query text =
     (\<exists>suf \<in> set (suffixes (sqlite_chars text)).
        \<exists>pre \<in> set (prefixes suf). list_all2 same_letter (sqlite_chars query) pre)"

text \<open>A query without \<^verbatim>\<open>LIKE\<close> wildcards and without a NUL character.\<close>

definition plain_query :: "string \<Rightarrow> bool" where
  "plain_query q = list_all (\<lambda>c. byte c \<noteq> 0 \<and> c \<noteq> CHR ''%'' \<and> c \<noteq> CHR ''_'') q"

section \<open>Example inputs\<close>

text \<open>A share that mounts but cannot be unmounted (a busy device), holding one file,
  on a machine whose cache disk rejects copies.\<close>

definition busy_env :: env where
  "busy_env =
     \<lparr>mount_works = True, umount_works = False,
      listdir = (\<lambda>p. None), share_exists = (\<lambda>p. p = ''/mnt/music/Artist/Album/01.flac''),
      read_tags = (\<lambda>p. None), makedirs_works = (\<lambda>d. True),
      copy_works = (\<lambda>src dst. False), clock = 0\<rparr>"

definition state0 :: "bool \<Rightarrow> string set \<Rightarrow> os_state" where
  "state0 m ps = \<lparr>mounted = m, local_paths = ps, commands = [], logged = []\<rparr>"

definition two_files :: cache_tree where
  "two_files =
     [\<lparr>cf_path = ''/cache/b.flac'', cf_size = 4 * 1024 ^ 3, cf_atime = 200\<rparr>,
      \<lparr>cf_path = ''/cache/a.flac'', cf_size = 2 * 1024 ^ 3, cf_atime = 100\<rparr>]"

definition three_files :: cache_tree where
  "three_files =
     [\<lparr>cf_path = ''/cache/b.flac'', cf_size = 4 * 1024 ^ 3, cf_atime = 200\<rparr>,
      \<lparr>cf_path = ''/cache/a.flac'', cf_size = 2 * 1024 ^ 3, cf_atime = 100\<rparr>,
      \<lparr>cf_path = ''/cache/c.flac'', cf_size = 1024 ^ 3, cf_atime = 150\<rparr>]"

text \<open>
  A small share. \<^verbatim>\<open>Artist\<close> holds no music itself but two album directories, one of
  them dot-prefixed; \<^verbatim>\<open>.hidden\<close> is a dot-prefixed directory at the root that holds an
  album directory; \<^verbatim>\<open>Deep\<close> lies three levels down. The tags of \<^verbatim>\<open>a.wav\<close> cannot be
  read.
\<close>

definition song_tag :: "string \<Rightarrow> int \<Rightarrow> tag" where
  "song_tag title n =
     \<lparr>tag_album = Some ''AlbumA'', tag_albumartist = None, tag_artist = Some ''Artist'',
      tag_year = Some ''1999'', tag_title = Some title, tag_track = Some n,
      tag_disc = None, tag_duration = Some 180\<rparr>"

definition example_env :: env where
  "example_env =
     \<lparr>mount_works = True, umount_works = True,
      listdir = map_of
        [(''/mnt/music'', [(''Artist'', Directory), (''.hidden'', Directory),
                           (''readme.txt'', RegularFile)]),
         (''/mnt/music/Artist'', [(''AlbumA'', Directory), (''.AlbumB'', Directory)]),
         (''/mnt/music/Artist/AlbumA'',
            [(''02.flac'', RegularFile), (''01.flac'', RegularFile),
             (''cover.jpg'', RegularFile)]),
         (''/mnt/music/Artist/.AlbumB'', [(''a.wav'', RegularFile), (''Deep'', Directory)]),
         (''/mnt/music/Artist/.AlbumB/Deep'', [(''x.flac'', RegularFile)]),
         (''/mnt/music/.hidden'', [(''Inner'', Directory)]),
         (''/mnt/music/.hidden/Inner'', [(''h.flac'', RegularFile)])],
      share_exists = (\<lambda>p. p = ''/mnt/music/Artist/AlbumA/cover.jpg''),
      read_tags = map_of
        [(''/mnt/music/Artist/AlbumA/01.flac'', song_tag ''Song1'' 1),
         (''/mnt/music/Artist/AlbumA/02.flac'', song_tag ''Song2'' 2)],
      makedirs_works = (\<lambda>d. True),
      copy_works = (\<lambda>src dst. True), clock = 1700000000\<rparr>"

text \<open>An index that already holds the album of \<^verbatim>\<open>Artist/AlbumA\<close> and its two tracks.\<close>

definition indexed_db :: database where
  "indexed_db =
     \<lparr>albums =
        [\<lparr>a_id = 1, a_title = ''AlbumA'', a_artist = ''Artist'', a_year = ''1999'',
          a_directory = ''Artist/AlbumA'', a_cover_art = Some ''Artist/AlbumA/cover.jpg'',
          a_last_updated = 1600000000\<rparr>],
      tracks =
        [\<lparr>t_id = 1, t_album_id = 1, t_title = ''Song2'', t_artist = ''Artist'',
          t_track_number = 2, t_disc_number = 1, t_duration = 180,
          t_file_path = ''Artist/AlbumA/02.flac''\<rparr>,
         \<lparr>t_id = 2, t_album_id = 1, t_title = ''Song1'', t_artist = ''Artist'',
          t_track_number = 1, t_disc_number = 1, t_duration = 180,
          t_file_path = ''Artist/AlbumA/01.flac''\<rparr>]\<rparr>"

definition albumA_info :: album_info where
  "albumA_info =
     \<lparr>ai_id = 1, ai_title = ''AlbumA'', ai_artist = ''Artist'', ai_year = ''1999'',
      ai_directory = ''Artist/AlbumA'', ai_cover_art = Some ''Artist/AlbumA/cover.jpg'',
      ai_tracks =
        [\<lparr>ti_title = ''Song1'', ti_artist = ''Artist'', ti_track_number = 1,
          ti_disc_number = 1, ti_duration = 180, ti_file_path = ''Artist/AlbumA/01.flac''\<rparr>,
         \<lparr>ti_title = ''Song2'', ti_artist = ''Artist'', ti_track_number = 2,
          ti_disc_number = 1, ti_duration = 180, ti_file_path = ''Artist/AlbumA/02.flac''\<rparr>]\<rparr>"

text \<open>A share whose only top-level directory holds no music but two album directories,
  and one whose only top-level directory is such a container with a dot-prefixed name.\<close>

definition two_album_env :: env where
  "two_album_env =
     \<lparr>mount_works = True, umount_works = True,
      listdir = map_of
        [(''/mnt/music'', [(''Artist'', Directory)]),
         (''/mnt/music/Artist'', [(''One'', Directory), (''Two'', Directory)]),
         (''/mnt/music/Artist/One'', [(''1.flac'', RegularFile)]),
         (''/mnt/music/Artist/Two'', [(''2.wv'', RegularFile)])],
      share_exists = (\<lambda>p. False), read_tags = (\<lambda>p. None),
      makedirs_works = (\<lambda>d. True), copy_works = (\<lambda>src dst. True), clock = 0\<rparr>"

definition hidden_container_env :: env where
  "hidden_container_env =
     \<lparr>mount_works = True, umount_works = True,
      listdir = map_of
        [(''/mnt/music'', [(''.Artist'', Directory)]),
         (''/mnt/music/.Artist'', [(''One'', Directory)]),
         (''/mnt/music/.Artist/One'', [(''1.flac'', RegularFile)])],
      share_exists = (\<lambda>p. False), read_tags = (\<lambda>p. None),
      makedirs_works = (\<lambda>d. True), copy_works = (\<lambda>src dst. True), clock = 0\<rparr>"

text \<open>An index with one album whose title and artist are single letters, and one with
  three albums out of title order.\<close>

definition letters_db :: database where
  "letters_db =
     \<lparr>albums =
        [\<lparr>a_id = 1, a_title = ''A'', a_artist = ''B'', a_year = ''2001'',
          a_directory = ''A'', a_cover_art = None, a_last_updated = 0\<rparr>],
      tracks = []\<rparr>"

definition shelf_db :: database where
  "shelf_db =
     \<lparr>albums =
        [\<lparr>a_id = 1, a_title = ''Kind of Blue'', a_artist = ''Miles Davis'', a_year = ''1959'',
          a_directory = ''Miles Davis/Kind of Blue'', a_cover_art = None, a_last_updated = 0\<rparr>,
         \<lparr>a_id = 2, a_title = ''Abbey Road'', a_artist = ''The Beatles'', a_year = ''1969'',
          a_directory = ''Beatles/Abbey Road'', a_cover_art = None, a_last_updated = 0\<rparr>,
         \<lparr>a_id = 3, a_title = ''Blue Train'', a_artist = ''John Coltrane'', a_year = ''1958'',
          a_directory = ''Coltrane/Blue Train'', a_cover_art = None, a_last_updated = 0\<rparr>],
      tracks =
        [\<lparr>t_id = 1, t_album_id = 3, t_title = ''Locomotion'', t_artist = ''John Coltrane'',
          t_track_number = 2, t_disc_number = 1, t_duration = 550,
          t_file_path = ''Coltrane/Blue Train/02.flac''\<rparr>,
         \<lparr>t_id = 2, t_album_id = 3, t_title = ''Blue Train'', t_artist = ''John Coltrane'',
          t_track_number = 1, t_disc_number = 1, t_duration = 643,
          t_file_path = ''Coltrane/Blue Train/01.flac''\<rparr>]\<rparr>"

section \<open>Properties of the network handler\<close>

lemmas nh_defs = is_mounted_def execute_command_def command_succeeds_def command_effect_def
  log_msg_def unmount_share_def mount_share_def ensure_mounted_def

lemma unmount_share_always_true: "fst (unmount_share e s)"
  by (simp add: nh_defs Let_def split: prod.splits)

text \<open>
  C1. The claim: \<^verbatim>\<open>unmount\<close> returns true only when the share is not mounted afterwards,
  and false when the share was mounted and the \<^verbatim>\<open>umount\<close> command fails. The code run on
  a mounted share whose \<^verbatim>\<open>umount\<close> fails: it issues the mount check and the \<^verbatim>\<open>umount\<close>,
  returns \<^verbatim>\<open>True\<close>, and the share is still mounted.
\<close>

theorem unmount_share_true_while_mounted:
  "fst (unmount_share busy_env (state0 True {})) \<and>
   mounted (snd (unmount_share busy_env (state0 True {}))) \<and>
   commands (snd (unmount_share busy_env (state0 True {}))) = [MountCheck, Umount]"
  by (simp add: nh_defs busy_env_def state0_def)

text \<open>
  C5. Cache-hit short-circuit: when caching is enabled and the cache path of \<open>P\<close>
  exists, \<^verbatim>\<open>get_file_path\<close> returns that path and leaves the whole state as it found it:
  the mount table is unchanged and no shell command (so no mount check) was run, whatever
  the mount table says.
\<close>

theorem cache_hit_short_circuit:
  assumes "CACHE_ENABLED cfg"
    and "path_exists e s (path_div (CACHE_PATH cfg) P)"
  shows "get_file_path cfg e s P = (Some (path_div (CACHE_PATH cfg) P), s)"
  using assms by (simp add: get_file_path_def)

theorem cache_hit_short_circuit_witness:
  "CACHE_ENABLED default_config \<and>
   path_exists busy_env (state0 False {''/home/pi/pi_lossless_player/cache/Artist/Album/01.flac''})
     (path_div (CACHE_PATH default_config) ''Artist/Album/01.flac'') \<and>
   get_file_path default_config busy_env
     (state0 False {''/home/pi/pi_lossless_player/cache/Artist/Album/01.flac''})
     ''Artist/Album/01.flac'' =
   (Some ''/home/pi/pi_lossless_player/cache/Artist/Album/01.flac'',
    state0 False {''/home/pi/pi_lossless_player/cache/Artist/Album/01.flac''})"
proof -
  have c: "CACHE_ENABLED default_config" by (simp add: default_config_def)
  have p: "path_div (CACHE_PATH default_config) ''Artist/Album/01.flac'' =
             ''/home/pi/pi_lossless_player/cache/Artist/Album/01.flac''"
    by (simp add: default_config_def path_div_def)
  have x: "path_exists busy_env
             (state0 False {''/home/pi/pi_lossless_player/cache/Artist/Album/01.flac''})
             (path_div (CACHE_PATH default_config) ''Artist/Album/01.flac'')"
    unfolding p by (simp add: path_exists_def state0_def)
  from cache_hit_short_circuit [OF c x] c x p show ?thesis by simp
qed

text \<open>
  C9. Copy-failure passthrough: with caching enabled, no cache entry for \<open>P\<close>, a
  successful \<^verbatim>\<open>ensure_mounted\<close> and the remote file in place, \<^verbatim>\<open>get_file_path\<close> returns
  the cache path when \<^verbatim>\<open>makedirs\<close> and \<^verbatim>\<open>copy2\<close> both succeed and the mount-point path
  otherwise; it never returns \<^verbatim>\<open>None\<close>.
\<close>

theorem copy_failure_passthrough:
  assumes "CACHE_ENABLED cfg"
    and "\<not> path_exists e s (path_div (CACHE_PATH cfg) P)"
    and "fst (ensure_mounted e s)"
    and "path_exists e (snd (ensure_mounted e s)) (path_div (MOUNT_POINT cfg) P)"
  shows "fst (get_file_path cfg e s P) =
           (if makedirs_works e (dirname (path_div (CACHE_PATH cfg) P)) \<and>
               copy_works e (path_div (MOUNT_POINT cfg) P) (path_div (CACHE_PATH cfg) P)
            then Some (path_div (CACHE_PATH cfg) P)
            else Some (path_div (MOUNT_POINT cfg) P))"
  using assms by (auto simp add: get_file_path_def Let_def split: prod.splits)

lemma busy_env_mounts:
  "fst (ensure_mounted busy_env (state0 False {})) \<and>
   mounted (snd (ensure_mounted busy_env (state0 False {})))"
  by (simp add: nh_defs busy_env_def state0_def)

theorem copy_failure_passthrough_witness:
  "CACHE_ENABLED default_config \<and>
   \<not> path_exists busy_env (state0 False {})
       (path_div (CACHE_PATH default_config) ''Artist/Album/01.flac'') \<and>
   fst (ensure_mounted busy_env (state0 False {})) \<and>
   path_exists busy_env (snd (ensure_mounted busy_env (state0 False {})))
     (path_div (MOUNT_POINT default_config) ''Artist/Album/01.flac'') \<and>
   \<not> copy_works busy_env ''/mnt/music/Artist/Album/01.flac''
        ''/home/pi/pi_lossless_player/cache/Artist/Album/01.flac'' \<and>
   fst (get_file_path default_config busy_env (state0 False {}) ''Artist/Album/01.flac'') =
     Some ''/mnt/music/Artist/Album/01.flac''"
proof -
  have c: "CACHE_ENABLED default_config" by (simp add: default_config_def)
  have pc: "path_div (CACHE_PATH default_config) ''Artist/Album/01.flac'' =
              ''/home/pi/pi_lossless_player/cache/Artist/Album/01.flac''"
    by (simp add: default_config_def path_div_def)
  have pn: "path_div (MOUNT_POINT default_config) ''Artist/Album/01.flac'' =
              ''/mnt/music/Artist/Album/01.flac''"
    by (simp add: default_config_def path_div_def)
  have miss: "\<not> path_exists busy_env (state0 False {})
                 (path_div (CACHE_PATH default_config) ''Artist/Album/01.flac'')"
    unfolding pc by (simp add: path_exists_def state0_def busy_env_def)
  have m: "fst (ensure_mounted busy_env (state0 False {}))"
    using busy_env_mounts by blast
  have ex: "path_exists busy_env (snd (ensure_mounted busy_env (state0 False {})))
              (path_div (MOUNT_POINT default_config) ''Artist/Album/01.flac'')"
    unfolding pn using busy_env_mounts by (simp add: path_exists_def busy_env_def)
  have nc: "\<not> copy_works busy_env ''/mnt/music/Artist/Album/01.flac''
        ''/home/pi/pi_lossless_player/cache/Artist/Album/01.flac''"
    by (simp add: busy_env_def)
  from copy_failure_passthrough [OF c miss m ex] nc
  have "fst (get_file_path default_config busy_env (state0 False {}) ''Artist/Album/01.flac'') =
     Some ''/mnt/music/Artist/Album/01.flac''"
    unfolding pc pn by simp
  with c miss m ex nc show ?thesis by blast
qed

section \<open>Properties of the cache sweep\<close>

lemma cache_size_mset: "mset c = mset d \<Longrightarrow> cache_size c = cache_size d"
proof -
  assume "mset c = mset d"
  then have "mset (map cf_size c) = mset (map cf_size d)" by (metis mset_map)
  then have "sum_mset (mset (map cf_size c)) = sum_mset (mset (map cf_size d))"
    by (rule arg_cong)
  then have "sum_list (map cf_size c) = sum_list (map cf_size d)"
    by (simp only: sum_mset_sum_list)
  then show ?thesis by (simp add: cache_size_def)
qed

lemma size_gb_mset: "mset c = mset d \<Longrightarrow> size_gb c = size_gb d"
  using cache_size_mset[of c d] by (simp add: size_gb_def)

lemma distinct_paths_mset:
  "mset c = mset d \<Longrightarrow> distinct (map cf_path c) = distinct (map cf_path d)"
proof -
  assume "mset c = mset d"
  then have "mset (map cf_path c) = mset (map cf_path d)" by simp
  then show ?thesis by (rule mset_eq_imp_distinct_iff)
qed

text \<open>Removing the file at the head of the work list from a cache that holds exactly
  the work list leaves exactly the rest of it.\<close>

lemma os_remove_mset:
  assumes "distinct (map cf_path (f # fs))" and "mset c = mset (f # fs)"
  shows "mset (os_remove (cf_path f) c) = mset fs"
proof -
  have "mset (os_remove (cf_path f) c) = filter_mset (\<lambda>g. cf_path g \<noteq> cf_path f) (mset c)"
    by (simp add: os_remove_def)
  also have "\<dots> = filter_mset (\<lambda>g. cf_path g \<noteq> cf_path f) (mset fs)"
    using assms(2) by simp
  also have "\<dots> = mset fs"
    using assms(1)
    by (intro filter_mset_cong[where g="\<lambda>_. True", simplified]) (auto simp: image_iff)
  finally show ?thesis .
qed

text \<open>
  The loop on a non-empty work list, when every removal succeeds: it stops after some
  \<open>k \<ge> 1\<close> removals, having bound \<open>new_size\<close>; it stopped early only below the 80\% line;
  and after each smaller positive number of removals the size was not below the line.
\<close>

lemma remove_loop_swept:
  assumes "\<And>p. rm p" and "distinct (map cf_path fs)" and "mset c = mset fs" and "fs \<noteq> []"
  shows "\<exists>k c'. 0 < k \<and> k \<le> length fs \<and>
           remove_loop rm mx fs c ns = Swept c' (Some (size_gb c')) \<and>
           mset c' = mset (drop k fs) \<and>
           (k < length fs \<longrightarrow> size_gb c' < mx * 0.8) \<and>
           (\<forall>j. 0 < j \<and> j < k \<longrightarrow> \<not> size_gb (drop j fs) < mx * 0.8)"
  using assms(2-4)
proof (induction fs arbitrary: c ns)
  case Nil
  then show ?case by simp
next
  case (Cons f fs)
  let ?c1 = "os_remove (cf_path f) c"
  have m1: "mset ?c1 = mset fs" using os_remove_mset Cons.prems(1,2) by blast
  have sz: "size_gb ?c1 = size_gb fs" using m1 by (rule size_gb_mset)
  show ?case
  proof (cases "size_gb ?c1 < mx * 0.8")
    case True
    have "remove_loop rm mx (f # fs) c ns = Swept ?c1 (Some (size_gb ?c1))"
      using True by (simp add: Let_def assms(1))
    then show ?thesis using m1 True
      by (intro exI[of _ "Suc 0"] exI[of _ ?c1]) auto
  next
    case False
    have step: "remove_loop rm mx (f # fs) c ns = remove_loop rm mx fs ?c1 (Some (size_gb ?c1))"
      using False by (simp add: Let_def assms(1))
    show ?thesis
    proof (cases "fs = []")
      case True
      then have "remove_loop rm mx (f # fs) c ns = Swept ?c1 (Some (size_gb ?c1))"
        using step by simp
      then show ?thesis using m1 True
        by (intro exI[of _ "Suc 0"] exI[of _ ?c1]) auto
    next
      case ne: False
      from Cons.prems(1) have d: "distinct (map cf_path fs)" by simp
      from Cons.IH[OF d m1 ne, of "Some (size_gb ?c1)"]
      obtain k c' where k: "0 < k" "k \<le> length fs"
        and r: "remove_loop rm mx fs ?c1 (Some (size_gb ?c1)) = Swept c' (Some (size_gb c'))"
        and m: "mset c' = mset (drop k fs)"
        and lt: "k < length fs \<longrightarrow> size_gb c' < mx * 0.8"
        and mn: "\<forall>j. 0 < j \<and> j < k \<longrightarrow> \<not> size_gb (drop j fs) < mx * 0.8"
        by blast
      have mn': "\<forall>j. 0 < j \<and> j < Suc k \<longrightarrow> \<not> size_gb (drop j (f # fs)) < mx * 0.8"
      proof (intro allI impI)
        fix j assume j: "0 < j \<and> j < Suc k"
        then obtain i where i: "j = Suc i" by (cases j) auto
        show "\<not> size_gb (drop j (f # fs)) < mx * 0.8"
        proof (cases "i = 0")
          case True
          then show ?thesis using i False sz by simp
        next
          case False
          then show ?thesis using i j mn by simp
        qed
      qed
      show ?thesis
        using k r m lt mn' step
        by (intro exI[of _ "Suc k"] exI[of _ c']) simp
    qed
  qed
qed

lemmas cache_eval = clean_cache_def size_gb_def cache_size_def os_remove_def Let_def

lemma two_files_cleaned: "fst (clean_cache (\<lambda>p. True) two_files 5) = []"
  by (simp add: cache_eval two_files_def)

lemma three_files_cleaned:
  "fst (clean_cache (\<lambda>p. True) three_files 6) =
     [\<lparr>cf_path = ''/cache/b.flac'', cf_size = 4 * 1024 ^ 3, cf_atime = 200\<rparr>]"
  by (simp add: cache_eval three_files_def)

text \<open>
  C2, as stated, fails. The claim: whenever the total exceeds the limit, the sweep ends
  with a total of at most 0.8 times the limit and removes no more of the oldest files than
  are needed to bring the total to at most 0.8 times the limit. With a limit of 5 GB and
  files of 2 GiB (older) and 4 GiB, removing the older file leaves exactly 4 GiB, which
  is 0.8 times the limit; the loop's test is the strict \<^verbatim>\<open>new_size < max_size_gb * 0.8\<close>,
  so it removes the second file as well. (Both \<^verbatim>\<open>4.0\<close> and \<^verbatim>\<open>5 * 0.8\<close> are the float
  \<^verbatim>\<open>4.0\<close> in Python, so the exact arithmetic of the model agrees with the floats here.)
\<close>

theorem clean_cache_minimality_counterexample:
  "\<not> (\<forall>c mx. distinct (map cf_path c) \<and> mx < size_gb c \<longrightarrow>
         size_gb (fst (clean_cache (\<lambda>p. True) c mx)) \<le> 0.8 * mx \<and>
         (\<forall>j. size_gb (drop j (sort_key cf_atime c)) \<le> 0.8 * mx \<longrightarrow>
              length c - length (fst (clean_cache (\<lambda>p. True) c mx)) \<le> j))"
proof
  assume a: "\<forall>c mx. distinct (map cf_path c) \<and> mx < size_gb c \<longrightarrow>
         size_gb (fst (clean_cache (\<lambda>p. True) c mx)) \<le> 0.8 * mx \<and>
         (\<forall>j. size_gb (drop j (sort_key cf_atime c)) \<le> 0.8 * mx \<longrightarrow>
              length c - length (fst (clean_cache (\<lambda>p. True) c mx)) \<le> j)"
  have h: "distinct (map cf_path two_files) \<and> 5 < size_gb two_files"
    by (simp add: two_files_def size_gb_def cache_size_def)
  have enough: "size_gb (drop 1 (sort_key cf_atime two_files)) \<le> 0.8 * 5"
    by (simp add: two_files_def size_gb_def cache_size_def)
  from a h have "\<forall>j. size_gb (drop j (sort_key cf_atime two_files)) \<le> 0.8 * 5 \<longrightarrow>
              length two_files - length (fst (clean_cache (\<lambda>p. True) two_files 5)) \<le> j"
    by blast
  with enough have "length two_files - length (fst (clean_cache (\<lambda>p. True) two_files 5)) \<le> 1"
    by blast
  then show False unfolding two_files_cleaned by (simp add: two_files_def)
qed

text \<open>
  C2, amended. For a cache with distinct file paths whose total exceeds a non-negative
  limit, when every removal succeeds: after \<^verbatim>\<open>clean_cache\<close> the total is at most 0.8
  times the limit, and strictly below it unless every file was removed (the loop stops
  early only on \<^verbatim>\<open>new_size < max_size_gb * 0.8\<close>); the files left are the cache without
  its \<open>k\<close> least recently accessed files, \<open>k\<close> being the number of files removed; and
  \<open>k\<close> is minimal for the strict threshold: removing any \<open>j\<close> oldest files that brings
  the total strictly below 0.8 times the limit takes \<open>j \<ge> k\<close>.
\<close>

theorem clean_cache_evicts_oldest_minimal:
  assumes rm: "\<And>p. rm p"
    and dist: "distinct (map cf_path c)"
    and nonneg: "0 \<le> mx"
    and over: "size_gb c > mx"
  shows "size_gb (fst (clean_cache rm c mx)) \<le> 0.8 * mx \<and>
         (fst (clean_cache rm c mx) \<noteq> [] \<longrightarrow> size_gb (fst (clean_cache rm c mx)) < 0.8 * mx) \<and>
         mset (fst (clean_cache rm c mx)) =
           mset (drop (length c - length (fst (clean_cache rm c mx))) (sort_key cf_atime c)) \<and>
         (\<forall>j. size_gb (drop j (sort_key cf_atime c)) < 0.8 * mx \<longrightarrow>
              length c - length (fst (clean_cache rm c mx)) \<le> j)"
proof -
  let ?srt = "sort_key cf_atime c"
  have ms: "mset c = mset ?srt" by simp
  have d: "distinct (map cf_path ?srt)" using dist distinct_paths_mset[OF ms] by simp
  have "size_gb c > 0" using nonneg over by simp
  then have "c \<noteq> []" by (auto simp: size_gb_def cache_size_def)
  then have ne: "?srt \<noteq> []" by (metis length_sort length_0_conv)
  from remove_loop_swept[where rm=rm and mx=mx and ns=None, OF rm d ms ne]
  obtain k c' where k: "0 < k" "k \<le> length ?srt"
    and r: "remove_loop rm mx ?srt c None = Swept c' (Some (size_gb c'))"
    and m: "mset c' = mset (drop k ?srt)"
    and lt: "k < length ?srt \<longrightarrow> size_gb c' < mx * 0.8"
    and mn: "\<forall>j. 0 < j \<and> j < k \<longrightarrow> \<not> size_gb (drop j ?srt) < mx * 0.8"
    by blast
  have res: "fst (clean_cache rm c mx) = c'"
    using over r by (simp add: clean_cache_def)
  have len: "length c' = length ?srt - k"
    using m by (metis length_drop size_mset)
  have kk: "length c - length c' = k" using len k by simp
  have post: "size_gb c' \<le> 0.8 * mx"
  proof (cases "k < length ?srt")
    case True
    then show ?thesis using lt by simp
  next
    case False
    then have "c' = []" using len by simp
    then show ?thesis using nonneg by (simp add: size_gb_def cache_size_def)
  qed
  have zero: "\<not> size_gb (drop 0 ?srt) < 0.8 * mx"
    using over nonneg size_gb_mset[OF ms] by simp
  have minimal: "\<forall>j. size_gb (drop j ?srt) < 0.8 * mx \<longrightarrow> k \<le> j"
  proof (intro allI impI)
    fix j assume a: "size_gb (drop j ?srt) < 0.8 * mx"
    show "k \<le> j"
    proof (rule ccontr)
      assume "\<not> k \<le> j"
      then have "j < k" by simp
      then show False using a mn zero by (cases "j = 0") (auto simp: mult.commute)
    qed
  qed
  have strict: "c' \<noteq> [] \<longrightarrow> size_gb c' < 0.8 * mx"
  proof
    assume "c' \<noteq> []"
    then have "k < length ?srt" using len by (cases "k < length ?srt") simp_all
    then show "size_gb c' < 0.8 * mx" using lt by simp
  qed
  show ?thesis unfolding res kk using post strict m minimal by simp
qed

theorem clean_cache_evicts_oldest_minimal_witness:
  "distinct (map cf_path three_files) \<and> (0::real) \<le> 6 \<and> 6 < size_gb three_files \<and>
   size_gb (fst (clean_cache (\<lambda>p. True) three_files 6)) \<le> 0.8 * 6 \<and>
   fst (clean_cache (\<lambda>p. True) three_files 6) \<noteq> [] \<and>
   size_gb (fst (clean_cache (\<lambda>p. True) three_files 6)) < 0.8 * 6 \<and>
   length three_files - length (fst (clean_cache (\<lambda>p. True) three_files 6)) = 2 \<and>
   mset (fst (clean_cache (\<lambda>p. True) three_files 6)) =
     mset (drop 2 (sort_key cf_atime three_files)) \<and>
   \<not> size_gb (drop 1 (sort_key cf_atime three_files)) < 0.8 * 6"
proof -
  have h1: "distinct (map cf_path three_files)" by (simp add: three_files_def)
  have h2: "(0::real) \<le> 6" by simp
  have h3: "6 < size_gb three_files" by (simp add: three_files_def size_gb_def cache_size_def)
  have k: "length three_files - length (fst (clean_cache (\<lambda>p. True) three_files 6)) = 2"
    unfolding three_files_cleaned by (simp add: three_files_def)
  note t = clean_cache_evicts_oldest_minimal [where rm = "\<lambda>p. True", OF TrueI h1 h2 h3]
  from t have a: "size_gb (fst (clean_cache (\<lambda>p. True) three_files 6)) \<le> 0.8 * 6" by blast
  have ne: "fst (clean_cache (\<lambda>p. True) three_files 6) \<noteq> []" unfolding three_files_cleaned by simp
  from t ne have s: "size_gb (fst (clean_cache (\<lambda>p. True) three_files 6)) < 0.8 * 6" by blast
  from t have b: "mset (fst (clean_cache (\<lambda>p. True) three_files 6)) =
     mset (drop 2 (sort_key cf_atime three_files))" unfolding k by blast
  from t have "size_gb (drop 1 (sort_key cf_atime three_files)) < 0.8 * 6 \<longrightarrow> 2 \<le> (1::nat)"
    unfolding k by blast
  then have c: "\<not> size_gb (drop 1 (sort_key cf_atime three_files)) < 0.8 * 6" by auto
  from h1 h2 h3 a ne s k b c show ?thesis by blast
qed


section \<open>Text that can be stored\<close>

lemma conts_append: "conts bs n \<Longrightarrow> conts (bs @ x) n"
  by (simp add: conts_def)

lemma conts_hd: "conts bs n \<Longrightarrow> 0 < n \<Longrightarrow> hd (bs @ x) = hd bs \<and> n \<le> length bs"
  by (cases bs) (simp_all add: conts_def)

text \<open>A well-formed character at the head of a text stays one when text is appended.\<close>

lemma utf8_width_append:
  assumes "0 < utf8_width s"
  shows "utf8_width (s @ x) = utf8_width s \<and> utf8_width s \<le> length s"
proof (cases s)
  case Nil
  then show ?thesis using assms by (simp add: utf8_width_def)
next
  case (Cons b bs)
  consider (a) "byte b < 0x80"
    | (b) "\<not> byte b < 0x80" "0xC2 \<le> byte b \<and> byte b \<le> 0xDF"
    | (c) "\<not> byte b < 0x80" "\<not> (0xC2 \<le> byte b \<and> byte b \<le> 0xDF)" "0xE0 \<le> byte b \<and> byte b \<le> 0xEF"
    | (d) "\<not> byte b < 0x80" "\<not> (0xC2 \<le> byte b \<and> byte b \<le> 0xDF)" "\<not> (0xE0 \<le> byte b \<and> byte b \<le> 0xEF)"
          "0xF0 \<le> byte b \<and> byte b \<le> 0xF4"
    | (e) "\<not> byte b < 0x80" "\<not> (0xC2 \<le> byte b \<and> byte b \<le> 0xDF)" "\<not> (0xE0 \<le> byte b \<and> byte b \<le> 0xEF)"
          "\<not> (0xF0 \<le> byte b \<and> byte b \<le> 0xF4)"
    by blast
  then show ?thesis
  proof cases
    case a
    then show ?thesis using Cons by (simp add: utf8_width_def)
  next
    case b
    then have w: "utf8_width s = (if conts bs 1 then 2 else 0)" using Cons by (simp add: utf8_width_def)
    with assms have c: "conts bs 1" by (simp split: if_splits)
    have "utf8_width (s @ x) = (if conts (bs @ x) 1 then 2 else 0)"
      using b Cons by (simp add: utf8_width_def)
    then show ?thesis using w c conts_append[OF c, of x] conts_hd[OF c, of x] Cons by simp
  next
    case c
    define lo where "lo = (if byte b = 0xE0 then 0xA0 else 0x80 :: nat)"
    define hi where "hi = (if byte b = 0xED then 0x9F else 0xBF :: nat)"
    have w: "utf8_width (b # ys) =
               (if conts ys 2 \<and> lo \<le> byte (hd ys) \<and> byte (hd ys) \<le> hi then 3 else 0)" for ys
      using c unfolding lo_def hi_def by (simp add: utf8_width_def)
    from assms Cons w[of bs] have k: "conts bs 2" "lo \<le> byte (hd bs)" "byte (hd bs) \<le> hi"
      by (simp_all split: if_splits)
    show ?thesis
      using w[of bs] w[of "bs @ x"] k conts_append[OF k(1), of x] conts_hd[OF k(1), of x] Cons
      by simp
  next
    case d
    define lo where "lo = (if byte b = 0xF0 then 0x90 else 0x80 :: nat)"
    define hi where "hi = (if byte b = 0xF4 then 0x8F else 0xBF :: nat)"
    have w: "utf8_width (b # ys) =
               (if conts ys 3 \<and> lo \<le> byte (hd ys) \<and> byte (hd ys) \<le> hi then 4 else 0)" for ys
      using d unfolding lo_def hi_def by (simp add: utf8_width_def)
    from assms Cons w[of bs] have k: "conts bs 3" "lo \<le> byte (hd bs)" "byte (hd bs) \<le> hi"
      by (simp_all split: if_splits)
    show ?thesis
      using w[of bs] w[of "bs @ x"] k conts_append[OF k(1), of x] conts_hd[OF k(1), of x] Cons
      by simp
  next
    case e
    have "utf8_width (b # bs) = 0" by (simp add: utf8_width_def e)
    then show ?thesis using Cons assms by simp
  qed
qed

lemma valid_utf8_append: "valid_utf8 a \<Longrightarrow> valid_utf8 (a @ b) = valid_utf8 b"
proof (induction a rule: valid_utf8.induct)
  case 1
  then show ?case by simp
next
  case (2 c cs)
  from "2.prems" have w: "0 < utf8_width (c # cs)"
    and v: "valid_utf8 (drop (utf8_width (c # cs) - 1) cs)" by simp_all
  from utf8_width_append[OF w, of b]
  have wa: "utf8_width (c # cs @ b) = utf8_width (c # cs)" and le: "utf8_width (c # cs) - 1 \<le> length cs"
    by auto
  have "valid_utf8 ((c # cs) @ b) = valid_utf8 (drop (utf8_width (c # cs) - 1) (cs @ b))"
    using w wa by simp
  also have "\<dots> = valid_utf8 (drop (utf8_width (c # cs) - 1) cs @ b)" using le by simp
  also have "\<dots> = valid_utf8 b" by (rule "2.IH"[OF v])
  finally show ?case .
qed

lemma valid_utf8_ascii: "byte c < 0x80 \<Longrightarrow> valid_utf8 (c # cs) = valid_utf8 cs"
  by (simp add: utf8_width_def)

lemma valid_utf8_os_path_join:
  assumes "valid_utf8 d" and "valid_utf8 n"
  shows "valid_utf8 (os_path_join d n)"
proof -
  have "byte CHR ''/'' < 0x80" by (simp add: byte_def)
  from valid_utf8_ascii[OF this, of n] have "valid_utf8 (CHR ''/'' # n)" using assms(2) by blast
  then show ?thesis using assms
    by (auto simp add: os_path_join_def valid_utf8_append simp del: valid_utf8.simps)
qed

lemma valid_utf8_find_cover_art:
  assumes "valid_utf8 d" and "find_cover_art cfg e s d COVER_NAMES = Some p"
  shows "valid_utf8 p"
proof -
  have names: "\<forall>n \<in> set COVER_NAMES. valid_utf8 n"
    by (simp add: COVER_NAMES_def utf8_width_def byte_def)
  have "find_cover_art cfg e s d ns = Some p \<Longrightarrow> \<forall>n \<in> set ns. valid_utf8 n \<Longrightarrow> valid_utf8 p" for ns
    by (induction ns)
       (auto simp add: Let_def valid_utf8_os_path_join[OF assms(1)] simp del: valid_utf8.simps
             split: if_splits)
  from this[OF assms(2) names] show ?thesis .
qed

section \<open>The scan in a mounted state\<close>

lemma same_disk_refl [simp]: "same_disk s s"
  by (simp add: same_disk_def)

lemma same_disk_trans: "same_disk s t \<Longrightarrow> same_disk t u \<Longrightarrow> same_disk s u"
  by (simp add: same_disk_def)

lemma same_disk_log [simp]: "same_disk s (log_msg lv m t) = same_disk s t"
  by (simp add: same_disk_def log_msg_def)

lemma same_disk_mounted: "same_disk s t \<Longrightarrow> mounted s \<Longrightarrow> mounted t"
  by (simp add: same_disk_def)

lemma log_kept_refl [simp]: "log_kept s s"
  by (simp add: log_kept_def)

lemma log_kept_trans: "log_kept s t \<Longrightarrow> log_kept t u \<Longrightarrow> log_kept s u"
  by (auto simp add: log_kept_def)

lemma log_kept_log: "log_kept s t \<Longrightarrow> log_kept s (log_msg lv m t)"
  by (auto simp add: log_kept_def log_msg_def)

lemma ensure_mounted_ok: "fst (ensure_mounted e s) \<Longrightarrow> mounted (snd (ensure_mounted e s))"
  by (auto simp add: nh_defs Let_def split: prod.splits if_splits command.splits)

lemma ensure_mounted_mounted:
  "mounted s \<Longrightarrow> fst (ensure_mounted e s) \<and> same_disk s (snd (ensure_mounted e s))"
  by (simp add: nh_defs Let_def same_disk_def)

lemma ensure_mounted_local: "local_paths (snd (ensure_mounted e s)) = local_paths s"
  by (simp add: nh_defs Let_def split: prod.splits if_splits)

lemma ensure_mounted_fails:
  "\<not> fst (ensure_mounted e s) \<Longrightarrow> \<not> mounted s \<and> \<not> mount_works e \<and> \<not> mounted (snd (ensure_mounted e s))"
  by (auto simp add: nh_defs Let_def split: prod.splits if_splits)

lemma ensure_mounted_cannot:
  "\<not> mounted s \<Longrightarrow> \<not> mount_works e \<Longrightarrow> \<not> fst (ensure_mounted e s)"
  by (auto simp add: nh_defs Let_def split: prod.splits if_splits)

lemma ensure_mounted_can:
  "mounted s \<or> mount_works e \<Longrightarrow> fst (ensure_mounted e s)"
  by (auto simp add: nh_defs Let_def split: prod.splits if_splits)

lemma ensure_mounted_log: "log_kept s (snd (ensure_mounted e s))"
  by (auto simp add: nh_defs log_kept_def Let_def split: prod.splits if_splits)

lemma list_files_mounted:
  assumes "mounted s"
  shows "fst (list_files cfg e s path (Some pat)) = filter pat (regular_files cfg e path) \<and>
         same_disk s (snd (list_files cfg e s path (Some pat)))"
  using ensure_mounted_mounted[OF assms, of e]
  by (auto simp add: list_files_def regular_files_def Let_def split: prod.splits option.splits)

lemma list_files_log: "log_kept s (snd (list_files cfg e s path pat))"
  using ensure_mounted_log[of s e]
  by (auto simp add: list_files_def Let_def log_kept_log split: prod.splits option.splits)

lemma list_directories_mounted:
  assumes "mounted s"
  shows "fst (list_directories cfg e s path) = subdirectories cfg e path \<and>
         same_disk s (snd (list_directories cfg e s path))"
  using ensure_mounted_mounted[OF assms, of e]
  by (auto simp add: list_directories_def subdirectories_def Let_def split: prod.splits option.splits)

lemma list_directories_log: "log_kept s (snd (list_directories cfg e s path))"
  using ensure_mounted_log[of s e]
  by (auto simp add: list_directories_def Let_def log_kept_log split: prod.splits option.splits)

lemma music_files_loop_mounted:
  "mounted s \<Longrightarrow>
   fst (music_files_loop cfg e s dir exts) =
     concat (map (\<lambda>ext. filter (ext_pattern ext) (regular_files cfg e dir)) exts) \<and>
   same_disk s (snd (music_files_loop cfg e s dir exts))"
proof (induction exts arbitrary: s)
  case Nil
  then show ?case by simp
next
  case (Cons ext exts)
  obtain fs s1 where l: "list_files cfg e s dir (Some (ext_pattern ext)) = (fs, s1)"
    by (cases "list_files cfg e s dir (Some (ext_pattern ext))")
  from list_files_mounted[OF Cons.prems, of cfg e dir "ext_pattern ext"] l
  have fs: "fs = filter (ext_pattern ext) (regular_files cfg e dir)" and sd: "same_disk s s1"
    by simp_all
  have m1: "mounted s1" using sd Cons.prems by (rule same_disk_mounted)
  from Cons.IH[OF m1] sd show ?case
    using l fs by (auto simp add: Let_def split: prod.splits intro: same_disk_trans)
qed

lemma music_files_loop_log: "log_kept s (snd (music_files_loop cfg e s dir exts))"
proof (induction exts arbitrary: s)
  case Nil
  then show ?case by simp
next
  case (Cons ext exts)
  obtain fs s1 where l: "list_files cfg e s dir (Some (ext_pattern ext)) = (fs, s1)"
    by (cases "list_files cfg e s dir (Some (ext_pattern ext))")
  have k: "log_kept s s1" using list_files_log[of s cfg e dir "Some (ext_pattern ext)"] l by simp
  show ?case using l log_kept_trans[OF k Cons.IH[of s1]]
    by (auto simp add: Let_def split: prod.splits)
qed

lemma music_files_loop_supported:
  "mounted s \<Longrightarrow>
   fst (music_files_loop cfg e s dir SUPPORTED_FORMATS) = music_files cfg e dir \<and>
   same_disk s (snd (music_files_loop cfg e s dir SUPPORTED_FORMATS))"
  using music_files_loop_mounted[of s cfg e dir SUPPORTED_FORMATS] by (simp add: music_files_def)

lemma path_exists_same_disk: "same_disk s t \<Longrightarrow> path_exists e t p = path_exists e s p"
  by (simp add: same_disk_def path_exists_def)

lemma find_cover_art_same_disk:
  "same_disk s t \<Longrightarrow> find_cover_art cfg e t d names = find_cover_art cfg e s d names"
  by (induction names) (simp_all add: Let_def path_exists_same_disk)

text \<open>While the share is mounted the tag reader, and with it the values derived from the
  tags, do not depend on the state.\<close>

lemma tinytag_get_mounted: "mounted s \<Longrightarrow> tinytag_get e s p = read_tags e p"
  by (simp add: tinytag_get_def)

lemma album_metadata_mounted:
  "mounted s \<Longrightarrow>
   fst (album_metadata cfg e s d f) = fst (album_metadata cfg e mounted_state d f)"
  by (simp add: album_metadata_def Let_def tinytag_get_def mounted_state_def split: option.splits)

lemma album_metadata_state:
  "same_disk s (snd (album_metadata cfg e s d f)) \<and> log_kept s (snd (album_metadata cfg e s d f))"
  by (simp add: album_metadata_def Let_def log_kept_log split: option.splits)

lemma track_fields_mounted:
  "mounted s \<Longrightarrow> fst (track_fields cfg e s a d f) = track_values cfg e a d f"
  by (simp add: track_values_def track_fields_def Let_def tinytag_get_def mounted_state_def
           split: option.splits)

lemma track_fields_state:
  "same_disk s (snd (track_fields cfg e s a d f)) \<and> log_kept s (snd (track_fields cfg e s a d f))"
  by (simp add: track_fields_def Let_def log_kept_log split: option.splits)

text \<open>One \<^verbatim>\<open>INSERT OR REPLACE\<close> into each table.\<close>

lemma insert_or_replace_album_None:
  "\<not> (valid_utf8 title \<and> valid_utf8 artist \<and> valid_utf8 year \<and> valid_utf8 d \<and> sqlite_int ts) \<Longrightarrow>
   insert_or_replace_album db title artist year d cover ts = None"
  by (auto simp add: insert_or_replace_album_def)

lemma insert_or_replace_album_Some:
  assumes "valid_utf8 title" "valid_utf8 artist" "valid_utf8 year" "valid_utf8 d" "sqlite_int ts"
    and "\<And>p. cover = Some p \<Longrightarrow> valid_utf8 p"
  shows "insert_or_replace_album db title artist year d cover ts =
           Some (new_rowid (map a_id (albums db)),
                 db\<lparr>albums := filter (\<lambda>r. a_directory r \<noteq> d) (albums db) @
                    [\<lparr>a_id = new_rowid (map a_id (albums db)), a_title = title, a_artist = artist,
                      a_year = year, a_directory = d, a_cover_art = cover, a_last_updated = ts\<rparr>]\<rparr>)"
  using assms by (simp add: insert_or_replace_album_def Let_def split: option.splits)

lemma insert_or_replace_track_eq:
  "insert_or_replace_track db aid title artist tn dn du p =
     (if valid_utf8 title \<and> valid_utf8 artist \<and> sqlite_int tn \<and> sqlite_int dn \<and> valid_utf8 p
      then Some (new_rowid (map t_id (tracks db)),
                 db\<lparr>tracks := filter (\<lambda>r. t_file_path r \<noteq> p) (tracks db) @
                    [\<lparr>t_id = new_rowid (map t_id (tracks db)), t_album_id = aid, t_title = title,
                      t_artist = artist, t_track_number = tn, t_disc_number = dn, t_duration = du,
                      t_file_path = p\<rparr>]\<rparr>)
      else None)"
  by (simp add: insert_or_replace_track_def Let_def)

text \<open>The track loop in a mounted state, one step unfolded: it stops at a file whose
  values cannot be bound, and otherwise goes on with the row of the file written.\<close>

lemma process_tracks_stop:
  assumes "mounted s" and "\<not> track_storable cfg e a d f"
  shows "process_tracks cfg e s db aid a d (f # fs) = (False, snd (track_fields cfg e s a d f), db)"
proof -
  obtain v s1 where t: "track_fields cfg e s a d f = (v, s1)" by (cases "track_fields cfg e s a d f")
  have v: "track_values cfg e a d f = v" using track_fields_mounted[OF assms(1), of cfg e a d f] t by simp
  obtain title artist tn dn du where vv: "v = (title, artist, tn, dn, du)" by (cases v) auto
  have tv: "track_values cfg e a d f = (title, artist, tn, dn, du)" using v vv by simp
  have "insert_or_replace_track db aid title artist tn dn du (os_path_join d f) = None"
    using assms(2) by (simp add: track_storable_def tv insert_or_replace_track_eq)
  then show ?thesis using t vv by simp
qed

lemma process_tracks_go:
  assumes "mounted s" and "track_storable cfg e a d f"
  shows "\<exists>row. t_id row = new_rowid (map t_id (tracks db)) \<and> t_album_id row = aid \<and>
           t_file_path row = os_path_join d f \<and>
           (t_title row, t_artist row, t_track_number row, t_disc_number row, t_duration row) =
              track_values cfg e a d f \<and>
           process_tracks cfg e s db aid a d (f # fs) =
             process_tracks cfg e (snd (track_fields cfg e s a d f))
               (db\<lparr>tracks := filter (\<lambda>r. t_file_path r \<noteq> os_path_join d f) (tracks db) @ [row]\<rparr>)
               aid a d fs"
proof -
  obtain v s1 where t: "track_fields cfg e s a d f = (v, s1)" by (cases "track_fields cfg e s a d f")
  have v: "track_values cfg e a d f = v" using track_fields_mounted[OF assms(1), of cfg e a d f] t by simp
  obtain title artist tn dn du where vv: "v = (title, artist, tn, dn, du)" by (cases v) auto
  have tv: "track_values cfg e a d f = (title, artist, tn, dn, du)" using v vv by simp
  let ?row = "\<lparr>t_id = new_rowid (map t_id (tracks db)), t_album_id = aid, t_title = title,
                t_artist = artist, t_track_number = tn, t_disc_number = dn, t_duration = du,
                t_file_path = os_path_join d f\<rparr>"
  have ins: "insert_or_replace_track db aid title artist tn dn du (os_path_join d f) =
          Some (new_rowid (map t_id (tracks db)),
                db\<lparr>tracks := filter (\<lambda>r. t_file_path r \<noteq> os_path_join d f) (tracks db) @ [?row]\<rparr>)"
    using assms(2) by (simp add: track_storable_def tv insert_or_replace_track_eq)
  have "process_tracks cfg e s db aid a d (f # fs) =
          process_tracks cfg e (snd (track_fields cfg e s a d f))
            (db\<lparr>tracks := filter (\<lambda>r. t_file_path r \<noteq> os_path_join d f) (tracks db) @ [?row]\<rparr>)
            aid a d fs"
    using t vv ins by simp
  then show ?thesis using tv by (intro exI[of _ ?row]) simp
qed

section \<open>Rows and rowids\<close>

lemma new_rowid_Max: "ids \<noteq> [] \<Longrightarrow> new_rowid ids = Max (set ids) + 1"
  by (cases ids) (simp_all add: new_rowid_def Max.set_eq_fold[symmetric])

lemma new_rowid_gt: "i \<in> set ids \<Longrightarrow> i < new_rowid ids"
proof -
  assume i: "i \<in> set ids"
  then have ne: "ids \<noteq> []" by auto
  have "i \<le> Max (set ids)" using i by simp
  then show ?thesis using new_rowid_Max[OF ne] by simp
qed

lemma new_rowid_fresh: "new_rowid ids \<notin> set ids"
  using new_rowid_gt by blast

lemma distinct_filter_snoc:
  "distinct (map k rows) \<Longrightarrow> k row = p \<Longrightarrow>
   distinct (map k (filter (\<lambda>r. k r \<noteq> p) rows @ [row]))"
  by (auto simp add: distinct_map_filter)

lemma distinct_ids_filter_snoc:
  assumes "distinct (map i rows)" and "i row = new_rowid (map i rows)"
  shows "distinct (map i (filter q rows @ [row]))"
proof -
  have "i row \<notin> set (map i rows)" unfolding assms(2) by (rule new_rowid_fresh)
  then have "i row \<notin> i ` set (filter q rows)" by auto
  then show ?thesis using assms(1) by (simp add: distinct_map_filter)
qed

lemma new_rowid_filter_snoc:
  assumes "i row = new_rowid (map i rows)"
  shows "new_rowid (map i rows) < new_rowid (map i (filter q rows @ [row]))"
  by (rule new_rowid_gt) (simp add: assms)

section \<open>The track loop\<close>

lemma mounted_track_fields: "mounted s \<Longrightarrow> mounted (snd (track_fields cfg e s a d f))"
  using track_fields_state[of s cfg e a d f] by (simp add: same_disk_def)

text \<open>The loop runs to its end exactly when every file can be stored.\<close>

lemma fst_process_tracks:
  "mounted s \<Longrightarrow>
   fst (process_tracks cfg e s db aid a d fs) = list_all (track_storable cfg e a d) fs"
proof (induction fs arbitrary: s db)
  case Nil
  then show ?case by simp
next
  case (Cons f fs)
  show ?case
  proof (cases "track_storable cfg e a d f")
    case False
    show ?thesis unfolding process_tracks_stop[OF Cons.prems False] using False by simp
  next
    case True
    from process_tracks_go[OF Cons.prems True, of db aid fs] obtain row where
      go: "process_tracks cfg e s db aid a d (f # fs) =
             process_tracks cfg e (snd (track_fields cfg e s a d f))
               (db\<lparr>tracks := filter (\<lambda>r. t_file_path r \<noteq> os_path_join d f) (tracks db) @ [row]\<rparr>)
               aid a d fs" by blast
    show ?thesis unfolding go using Cons.IH[OF mounted_track_fields[OF Cons.prems, of cfg e a d f]] True by simp
  qed
qed

lemma process_tracks_state:
  "mounted s \<Longrightarrow>
   same_disk s (fst (snd (process_tracks cfg e s db aid a d fs))) \<and>
   log_kept s (fst (snd (process_tracks cfg e s db aid a d fs)))"
proof (induction fs arbitrary: s db)
  case Nil
  then show ?case by simp
next
  case (Cons f fs)
  note k = track_fields_state[of s cfg e a d f]
  show ?case
  proof (cases "track_storable cfg e a d f")
    case False
    show ?thesis unfolding process_tracks_stop[OF Cons.prems False] using k by simp
  next
    case True
    from process_tracks_go[OF Cons.prems True, of db aid fs] obtain row where
      go: "process_tracks cfg e s db aid a d (f # fs) =
             process_tracks cfg e (snd (track_fields cfg e s a d f))
               (db\<lparr>tracks := filter (\<lambda>r. t_file_path r \<noteq> os_path_join d f) (tracks db) @ [row]\<rparr>)
               aid a d fs" by blast
    show ?thesis unfolding go
      using Cons.IH[OF mounted_track_fields[OF Cons.prems, of cfg e a d f]] k
      by (blast intro: same_disk_trans log_kept_trans)
  qed
qed

lemma albums_process_tracks:
  "mounted s \<Longrightarrow> albums (snd (snd (process_tracks cfg e s db aid a d fs))) = albums db"
proof (induction fs arbitrary: s db)
  case Nil
  then show ?case by simp
next
  case (Cons f fs)
  show ?case
  proof (cases "track_storable cfg e a d f")
    case False
    show ?thesis unfolding process_tracks_stop[OF Cons.prems False] by simp
  next
    case True
    from process_tracks_go[OF Cons.prems True, of db aid fs] obtain row where
      go: "process_tracks cfg e s db aid a d (f # fs) =
             process_tracks cfg e (snd (track_fields cfg e s a d f))
               (db\<lparr>tracks := filter (\<lambda>r. t_file_path r \<noteq> os_path_join d f) (tracks db) @ [row]\<rparr>)
               aid a d fs" by blast
    show ?thesis unfolding go using Cons.IH[OF mounted_track_fields[OF Cons.prems, of cfg e a d f]] by simp
  qed
qed

text \<open>In a mounted state the outcome of the loop does not depend on the state.\<close>

lemma process_tracks_mounted:
  "mounted s \<Longrightarrow> mounted t \<Longrightarrow>
   fst (process_tracks cfg e t db aid a d fs) = fst (process_tracks cfg e s db aid a d fs) \<and>
   snd (snd (process_tracks cfg e t db aid a d fs)) =
     snd (snd (process_tracks cfg e s db aid a d fs))"
proof (induction fs arbitrary: s t db)
  case Nil
  then show ?case by simp
next
  case (Cons f fs)
  show ?case
  proof (cases "track_storable cfg e a d f")
    case False
    show ?thesis
      unfolding process_tracks_stop[OF Cons.prems(1) False] process_tracks_stop[OF Cons.prems(2) False]
      by simp
  next
    case True
    obtain title artist tn dn du where tv: "track_values cfg e a d f = (title, artist, tn, dn, du)"
      by (cases "track_values cfg e a d f") auto
    obtain s1 where ts: "track_fields cfg e s a d f = ((title, artist, tn, dn, du), s1)"
      using track_fields_mounted[OF Cons.prems(1), of cfg e a d f] tv
      by (cases "track_fields cfg e s a d f") auto
    obtain t1 where tt: "track_fields cfg e t a d f = ((title, artist, tn, dn, du), t1)"
      using track_fields_mounted[OF Cons.prems(2), of cfg e a d f] tv
      by (cases "track_fields cfg e t a d f") auto
    have m: "mounted s1" "mounted t1"
      using mounted_track_fields[OF Cons.prems(1), of cfg e a d f]
            mounted_track_fields[OF Cons.prems(2), of cfg e a d f] ts tt by simp_all
    show ?thesis
    proof (cases "insert_or_replace_track db aid title artist tn dn du (os_path_join d f)")
      case None
      then show ?thesis using ts tt by simp
    next
      case (Some r)
      obtain rowid db1 where r: "r = (rowid, db1)" by (cases r)
      have "process_tracks cfg e s db aid a d (f # fs) = process_tracks cfg e s1 db1 aid a d fs"
        "process_tracks cfg e t db aid a d (f # fs) = process_tracks cfg e t1 db1 aid a d fs"
        using ts tt Some r by simp_all
      then show ?thesis using Cons.IH[OF m, of db1] by simp
    qed
  qed
qed

text \<open>
  The rows of the track table after the loop. The paths written are those of the files up
  to the first one that cannot be stored; a row is either one that was there before, at a
  path the loop did not write, or a row the loop inserted, with a rowid not below the next
  rowid of the table before the loop, the album id given, and the values of one of the
  files written that has its path.
\<close>

lemma paths_process_tracks:
  "mounted s \<Longrightarrow>
   set (map t_file_path (tracks (snd (snd (process_tracks cfg e s db aid a d fs))))) =
     set (map t_file_path (tracks db)) \<union>
     os_path_join d ` set (takeWhile (track_storable cfg e a d) fs)"
proof (induction fs arbitrary: s db)
  case Nil
  then show ?case by simp
next
  case (Cons f fs)
  show ?case
  proof (cases "track_storable cfg e a d f")
    case False
    show ?thesis unfolding process_tracks_stop[OF Cons.prems False] using False by simp
  next
    case True
    from process_tracks_go[OF Cons.prems True, of db aid fs] obtain row where
      row: "t_file_path row = os_path_join d f"
      and go: "process_tracks cfg e s db aid a d (f # fs) =
             process_tracks cfg e (snd (track_fields cfg e s a d f))
               (db\<lparr>tracks := filter (\<lambda>r. t_file_path r \<noteq> os_path_join d f) (tracks db) @ [row]\<rparr>)
               aid a d fs" by blast
    show ?thesis unfolding go Cons.IH[OF mounted_track_fields[OF Cons.prems, of cfg e a d f]]
      using True row by auto
  qed
qed

lemma distinct_process_tracks:
  "mounted s \<Longrightarrow>
   (distinct (map t_file_path (tracks db)) \<longrightarrow>
    distinct (map t_file_path (tracks (snd (snd (process_tracks cfg e s db aid a d fs)))))) \<and>
   (distinct (map t_id (tracks db)) \<longrightarrow>
    distinct (map t_id (tracks (snd (snd (process_tracks cfg e s db aid a d fs)))))) \<and>
   new_rowid (map t_id (tracks db)) \<le>
     new_rowid (map t_id (tracks (snd (snd (process_tracks cfg e s db aid a d fs)))))"
proof (induction fs arbitrary: s db)
  case Nil
  then show ?case by simp
next
  case (Cons f fs)
  show ?case
  proof (cases "track_storable cfg e a d f")
    case False
    show ?thesis unfolding process_tracks_stop[OF Cons.prems False] by simp
  next
    case True
    from process_tracks_go[OF Cons.prems True, of db aid fs] obtain row where
      row: "t_file_path row = os_path_join d f" "t_id row = new_rowid (map t_id (tracks db))"
      and go: "process_tracks cfg e s db aid a d (f # fs) =
             process_tracks cfg e (snd (track_fields cfg e s a d f))
               (db\<lparr>tracks := filter (\<lambda>r. t_file_path r \<noteq> os_path_join d f) (tracks db) @ [row]\<rparr>)
               aid a d fs" by blast
    let ?s1 = "snd (track_fields cfg e s a d f)"
    let ?db1 = "db\<lparr>tracks := filter (\<lambda>r. t_file_path r \<noteq> os_path_join d f) (tracks db) @ [row]\<rparr>"
    let ?R = "tracks (snd (snd (process_tracks cfg e ?s1 ?db1 aid a d fs)))"
    have m1: "mounted ?s1" by (rule mounted_track_fields[OF Cons.prems])
    have p: "distinct (map t_file_path (tracks db)) \<longrightarrow> distinct (map t_file_path (tracks ?db1))"
      using distinct_filter_snoc[of t_file_path "tracks db" row, OF _ row(1)] by simp
    have i: "distinct (map t_id (tracks db)) \<longrightarrow> distinct (map t_id (tracks ?db1))"
      using distinct_ids_filter_snoc[of t_id "tracks db" row, OF _ row(2)] by simp
    have n: "new_rowid (map t_id (tracks db)) < new_rowid (map t_id (tracks ?db1))"
      using new_rowid_filter_snoc[of t_id row "tracks db", OF row(2)] by simp
    have ih: "(distinct (map t_file_path (tracks ?db1)) \<longrightarrow> distinct (map t_file_path ?R)) \<and>
              (distinct (map t_id (tracks ?db1)) \<longrightarrow> distinct (map t_id ?R)) \<and>
              new_rowid (map t_id (tracks ?db1)) \<le> new_rowid (map t_id ?R)"
      using Cons.IH[OF m1, of ?db1] .
    show ?thesis unfolding go
    proof (intro conjI impI)
      assume "distinct (map t_file_path (tracks db))"
      then show "distinct (map t_file_path ?R)" using ih p by blast
    next
      assume "distinct (map t_id (tracks db))"
      then show "distinct (map t_id ?R)" using ih i by blast
    next
      show "new_rowid (map t_id (tracks db)) \<le> new_rowid (map t_id ?R)" using ih n by linarith
    qed
  qed
qed

lemma rows_process_tracks:
  assumes "mounted s" and "r \<in> set (tracks (snd (snd (process_tracks cfg e s db aid a d fs))))"
  shows "(r \<in> set (tracks db) \<and>
          t_file_path r \<notin> os_path_join d ` set (takeWhile (track_storable cfg e a d) fs)) \<or>
         (new_rowid (map t_id (tracks db)) \<le> t_id r \<and> t_album_id r = aid \<and>
          (\<exists>f \<in> set (takeWhile (track_storable cfg e a d) fs).
             t_file_path r = os_path_join d f \<and>
             (t_title r, t_artist r, t_track_number r, t_disc_number r, t_duration r) =
               track_values cfg e a d f))"
  using assms
proof (induction fs arbitrary: s db)
  case Nil
  then show ?case by simp
next
  case (Cons f fs)
  show ?case
  proof (cases "track_storable cfg e a d f")
    case False
    show ?thesis using Cons.prems(2) unfolding process_tracks_stop[OF Cons.prems(1) False]
      using False by simp
  next
    case True
    from process_tracks_go[OF Cons.prems(1) True, of db aid fs] obtain row where
      row: "t_file_path row = os_path_join d f" "t_id row = new_rowid (map t_id (tracks db))"
        "t_album_id row = aid"
        "(t_title row, t_artist row, t_track_number row, t_disc_number row, t_duration row) =
              track_values cfg e a d f"
      and go: "process_tracks cfg e s db aid a d (f # fs) =
             process_tracks cfg e (snd (track_fields cfg e s a d f))
               (db\<lparr>tracks := filter (\<lambda>r. t_file_path r \<noteq> os_path_join d f) (tracks db) @ [row]\<rparr>)
               aid a d fs" by blast
    let ?s1 = "snd (track_fields cfg e s a d f)"
    let ?db1 = "db\<lparr>tracks := filter (\<lambda>r. t_file_path r \<noteq> os_path_join d f) (tracks db) @ [row]\<rparr>"
    have tw: "takeWhile (track_storable cfg e a d) (f # fs) =
                f # takeWhile (track_storable cfg e a d) fs" using True by simp
    have mono: "new_rowid (map t_id (tracks db)) < new_rowid (map t_id (tracks ?db1))"
      using new_rowid_filter_snoc[of t_id row "tracks db", OF row(2)] by simp
    from Cons.prems(2) have "r \<in> set (tracks (snd (snd (process_tracks cfg e ?s1 ?db1 aid a d fs))))"
      unfolding go .
    from Cons.IH[OF mounted_track_fields[OF Cons.prems(1), of cfg e a d f] this] consider
      (old) "r \<in> set (tracks ?db1)"
        "t_file_path r \<notin> os_path_join d ` set (takeWhile (track_storable cfg e a d) fs)"
    | (new) "new_rowid (map t_id (tracks ?db1)) \<le> t_id r" "t_album_id r = aid"
        "\<exists>g \<in> set (takeWhile (track_storable cfg e a d) fs). t_file_path r = os_path_join d g \<and>
           (t_title r, t_artist r, t_track_number r, t_disc_number r, t_duration r) =
             track_values cfg e a d g"
      by blast
    then show ?thesis
    proof cases
      case old
      from old(1) have "r \<in> set (filter (\<lambda>r. t_file_path r \<noteq> os_path_join d f) (tracks db)) \<or> r = row"
        by auto
      then show ?thesis
      proof
        assume "r \<in> set (filter (\<lambda>r. t_file_path r \<noteq> os_path_join d f) (tracks db))"
        then show ?thesis unfolding tw using old(2) by auto
      next
        assume r: "r = row"
        show ?thesis unfolding tw using r row by auto
      qed
    next
      case new
      then show ?thesis unfolding tw using mono by auto
    qed
  qed
qed

text \<open>The warning for a file whose tags cannot be read is in the log once the loop has
  reached the file.\<close>

lemma process_tracks_warns:
  assumes "f \<in> set (takeWhile (track_storable cfg e a d) fs)" and "mounted s"
    and "read_tags e (os_path_join (MOUNT_POINT cfg) (os_path_join d f)) = None"
  shows "(WARNING, ''Error reading tags from '' @ os_path_join (MOUNT_POINT cfg) (os_path_join d f))
           \<in> set (logged (fst (snd (process_tracks cfg e s db aid a d fs))))"
  using assms(1,2)
proof (induction fs arbitrary: s db)
  case Nil
  then show ?case by simp
next
  case (Cons g fs)
  let ?s1 = "snd (track_fields cfg e s a d g)"
  have m1: "mounted ?s1" by (rule mounted_track_fields[OF Cons.prems(2)])
  have st: "track_storable cfg e a d g" using Cons.prems(1) by (auto split: if_splits)
  from process_tracks_go[OF Cons.prems(2) st, of db aid fs] obtain row where
    go: "process_tracks cfg e s db aid a d (g # fs) =
           process_tracks cfg e ?s1
             (db\<lparr>tracks := filter (\<lambda>r. t_file_path r \<noteq> os_path_join d g) (tracks db) @ [row]\<rparr>)
             aid a d fs" by blast
  show ?case
  proof (cases "g = f")
    case True
    have "(WARNING, ''Error reading tags from '' @ os_path_join (MOUNT_POINT cfg) (os_path_join d f))
            \<in> set (logged ?s1)"
      using assms(3) Cons.prems(2) True
      by (simp add: track_fields_def Let_def tinytag_get_def log_msg_def)
    moreover have "log_kept ?s1 (fst (snd (process_tracks cfg e ?s1
             (db\<lparr>tracks := filter (\<lambda>r. t_file_path r \<noteq> os_path_join d g) (tracks db) @ [row]\<rparr>)
             aid a d fs)))"
      using process_tracks_state[OF m1] by blast
    ultimately show ?thesis unfolding go log_kept_def by blast
  next
    case False
    then have "f \<in> set (takeWhile (track_storable cfg e a d) fs)" using Cons.prems(1) st by simp
    from Cons.IH[OF this m1] show ?thesis unfolding go .
  qed
qed

section \<open>Album processing\<close>

text \<open>What album processing does in a mounted state: nothing to the database when the
  directory holds no music file or its album row cannot be bound; otherwise it replaces
  the album row and runs the track loop.\<close>

lemma process_album_directory_skip:
  assumes "mounted s" and "\<not> album_written cfg e d"
  shows "fst (process_album_directory cfg e s db d) = 0 \<and>
         album_upsert cfg e s d db = db \<and>
         same_disk s (fst (snd (process_album_directory cfg e s db d))) \<and>
         log_kept s (fst (snd (process_album_directory cfg e s db d)))"
proof -
  obtain mf s1 where l: "music_files_loop cfg e s d SUPPORTED_FORMATS = (mf, s1)"
    by (cases "music_files_loop cfg e s d SUPPORTED_FORMATS")
  have mf: "mf = music_files cfg e d" and sd1: "same_disk s s1"
    using music_files_loop_supported[OF assms(1), of cfg e d] l by simp_all
  have lk1: "log_kept s s1" using music_files_loop_log[of s cfg e d SUPPORTED_FORMATS] l by simp
  have m1: "mounted s1" using sd1 assms(1) by (rule same_disk_mounted)
  show ?thesis
  proof (cases "mf = []")
    case True
    then show ?thesis using l sd1 lk1 by (simp add: process_album_directory_def album_upsert_def)
  next
    case False
    obtain title artist year where af: "album_fields cfg e d = (title, artist, year)"
      by (cases "album_fields cfg e d") auto
    obtain s2 where m: "album_metadata cfg e s1 d (hd mf) = ((title, artist, year), s2)"
      using album_metadata_mounted[OF m1, of cfg e d "hd mf"] af mf
      by (cases "album_metadata cfg e s1 d (hd mf)") (auto simp add: album_fields_def)
    have k2: "same_disk s1 s2" "log_kept s1 s2"
      using album_metadata_state[of s1 cfg e d "hd mf"] m by simp_all
    have "\<not> album_storable cfg e d" using assms(2) False mf by (simp add: album_written_def)
    then have "insert_or_replace_album db title artist year d c (clock e) = None" for c
      using af by (intro insert_or_replace_album_None) (simp add: album_storable_def)
    then show ?thesis using l False m sd1 lk1 k2
      by (auto simp add: process_album_directory_def album_upsert_def Let_def
               intro: same_disk_trans log_kept_trans log_kept_log)
  qed
qed

lemma process_album_directory_write:
  assumes "mounted s" and "album_written cfg e d"
  shows "\<exists>s2 row. mounted s2 \<and> same_disk s s2 \<and> log_kept s s2 \<and>
           row = \<lparr>a_id = new_rowid (map a_id (albums db)), a_title = fst (album_fields cfg e d),
                  a_artist = album_artist cfg e d, a_year = snd (snd (album_fields cfg e d)),
                  a_directory = d, a_cover_art = find_cover_art cfg e s d COVER_NAMES,
                  a_last_updated = clock e\<rparr> \<and>
           process_album_directory cfg e s db d =
             (let (finished, s3, db2) =
                    process_tracks cfg e s2
                      (db\<lparr>albums := filter (\<lambda>r. a_directory r \<noteq> d) (albums db) @ [row]\<rparr>)
                      (new_rowid (map a_id (albums db))) (album_artist cfg e d) d
                      (music_files cfg e d)
              in if finished then (1, s3, db2)
                 else (0, log_msg ERROR (''Error processing album directory '' @ d) s3, db2))"
proof -
  obtain mf s1 where l: "music_files_loop cfg e s d SUPPORTED_FORMATS = (mf, s1)"
    by (cases "music_files_loop cfg e s d SUPPORTED_FORMATS")
  have mf: "mf = music_files cfg e d" and sd1: "same_disk s s1"
    using music_files_loop_supported[OF assms(1), of cfg e d] l by simp_all
  have lk1: "log_kept s s1" using music_files_loop_log[of s cfg e d SUPPORTED_FORMATS] l by simp
  have m1: "mounted s1" using sd1 assms(1) by (rule same_disk_mounted)
  have ne: "mf \<noteq> []" and st: "album_storable cfg e d"
    using assms(2) mf by (simp_all add: album_written_def)
  obtain title artist year where af: "album_fields cfg e d = (title, artist, year)"
    by (cases "album_fields cfg e d") auto
  obtain s2 where m: "album_metadata cfg e s1 d (hd mf) = ((title, artist, year), s2)"
    using album_metadata_mounted[OF m1, of cfg e d "hd mf"] af mf
    by (cases "album_metadata cfg e s1 d (hd mf)") (auto simp add: album_fields_def)
  have k2: "same_disk s1 s2" "log_kept s1 s2"
    using album_metadata_state[of s1 cfg e d "hd mf"] m by simp_all
  have sd: "same_disk s s2" using sd1 k2(1) by (rule same_disk_trans)
  have lk: "log_kept s s2" using lk1 k2(2) by (rule log_kept_trans)
  have m2: "mounted s2" using sd assms(1) by (rule same_disk_mounted)
  have cv: "find_cover_art cfg e s1 d COVER_NAMES = find_cover_art cfg e s d COVER_NAMES"
    using find_cover_art_same_disk[OF sd1] .
  have v: "valid_utf8 title" "valid_utf8 artist" "valid_utf8 year" "valid_utf8 d" "sqlite_int (clock e)"
    using st af by (simp_all add: album_storable_def)
  have cvalid: "\<And>p. find_cover_art cfg e s d COVER_NAMES = Some p \<Longrightarrow> valid_utf8 p"
    using valid_utf8_find_cover_art[OF v(4)] by blast
  let ?row = "\<lparr>a_id = new_rowid (map a_id (albums db)), a_title = title, a_artist = artist,
                a_year = year, a_directory = d,
                a_cover_art = find_cover_art cfg e s d COVER_NAMES, a_last_updated = clock e\<rparr>"
  have ins: "insert_or_replace_album db title artist year d
               (find_cover_art cfg e s d COVER_NAMES) (clock e) =
             Some (new_rowid (map a_id (albums db)),
                   db\<lparr>albums := filter (\<lambda>r. a_directory r \<noteq> d) (albums db) @ [?row]\<rparr>)"
    by (rule insert_or_replace_album_Some[OF v cvalid])
  have flds: "fst (album_fields cfg e d) = title" "album_artist cfg e d = artist"
    "snd (snd (album_fields cfg e d)) = year"
    using af by (simp_all add: album_artist_def)
  have "process_album_directory cfg e s db d =
             (let (finished, s3, db2) =
                    process_tracks cfg e s2
                      (db\<lparr>albums := filter (\<lambda>r. a_directory r \<noteq> d) (albums db) @ [?row]\<rparr>)
                      (new_rowid (map a_id (albums db))) artist d mf
              in if finished then (1, s3, db2)
                 else (0, log_msg ERROR (''Error processing album directory '' @ d) s3, db2))"
    using l ne m cv ins by (simp add: process_album_directory_def Let_def)
  then show ?thesis using m2 sd lk flds mf by (intro exI[of _ s2] exI[of _ ?row]) simp
qed

lemma mounted_process_album_directory:
  assumes "mounted s"
  shows "same_disk s (fst (snd (process_album_directory cfg e s db d))) \<and>
         log_kept s (fst (snd (process_album_directory cfg e s db d)))"
proof (cases "album_written cfg e d")
  case False
  then show ?thesis using process_album_directory_skip[OF assms False] by blast
next
  case True
  from process_album_directory_write[OF assms True, of db] obtain s2 row where
    k: "mounted s2" "same_disk s s2" "log_kept s s2"
    and p: "process_album_directory cfg e s db d =
             (let (finished, s3, db2) =
                    process_tracks cfg e s2
                      (db\<lparr>albums := filter (\<lambda>r. a_directory r \<noteq> d) (albums db) @ [row]\<rparr>)
                      (new_rowid (map a_id (albums db))) (album_artist cfg e d) d
                      (music_files cfg e d)
              in if finished then (1, s3, db2)
                 else (0, log_msg ERROR (''Error processing album directory '' @ d) s3, db2))"
    by blast
  let ?pt = "process_tracks cfg e s2
                      (db\<lparr>albums := filter (\<lambda>r. a_directory r \<noteq> d) (albums db) @ [row]\<rparr>)
                      (new_rowid (map a_id (albums db))) (album_artist cfg e d) d
                      (music_files cfg e d)"
  have t: "same_disk s2 (fst (snd ?pt))" "log_kept s2 (fst (snd ?pt))"
    using process_tracks_state[OF k(1)] by blast+
  have a: "same_disk s (fst (snd ?pt))" using k(2) t(1) by (rule same_disk_trans)
  have b: "log_kept s (fst (snd ?pt))" using k(3) t(2) by (rule log_kept_trans)
  show ?thesis unfolding p using a b
    by (cases ?pt) (auto simp add: Let_def intro: log_kept_log)
qed

text \<open>The result and the database, written with the track loop run from any mounted
  state.\<close>

lemma album_upsert_written:
  assumes "mounted s" and "album_written cfg e d" and "mounted t"
  shows "\<exists>row. a_id row = new_rowid (map a_id (albums db)) \<and> a_directory row = d \<and>
           (a_title row, a_artist row, a_year row) = album_fields cfg e d \<and>
           a_cover_art row = find_cover_art cfg e s d COVER_NAMES \<and>
           a_last_updated row = clock e \<and>
           album_upsert cfg e s d db =
             snd (snd (process_tracks cfg e t
                    (db\<lparr>albums := filter (\<lambda>r. a_directory r \<noteq> d) (albums db) @ [row]\<rparr>)
                    (new_rowid (map a_id (albums db))) (album_artist cfg e d) d
                    (music_files cfg e d)))"
proof -
  from process_album_directory_write[OF assms(1,2), of db] obtain s2 row where
    k: "mounted s2"
    and row: "row = \<lparr>a_id = new_rowid (map a_id (albums db)), a_title = fst (album_fields cfg e d),
                  a_artist = album_artist cfg e d, a_year = snd (snd (album_fields cfg e d)),
                  a_directory = d, a_cover_art = find_cover_art cfg e s d COVER_NAMES,
                  a_last_updated = clock e\<rparr>"
    and p: "process_album_directory cfg e s db d =
             (let (finished, s3, db2) =
                    process_tracks cfg e s2
                      (db\<lparr>albums := filter (\<lambda>r. a_directory r \<noteq> d) (albums db) @ [row]\<rparr>)
                      (new_rowid (map a_id (albums db))) (album_artist cfg e d) d
                      (music_files cfg e d)
              in if finished then (1, s3, db2)
                 else (0, log_msg ERROR (''Error processing album directory '' @ d) s3, db2))"
    by blast
  let ?db1 = "db\<lparr>albums := filter (\<lambda>r. a_directory r \<noteq> d) (albums db) @ [row]\<rparr>"
  let ?pt = "\<lambda>u. process_tracks cfg e u ?db1 (new_rowid (map a_id (albums db)))
                   (album_artist cfg e d) d (music_files cfg e d)"
  have "album_upsert cfg e s d db = snd (snd (?pt s2))"
    unfolding album_upsert_def p by (cases "?pt s2") (simp add: Let_def)
  also have "\<dots> = snd (snd (?pt t))" using process_tracks_mounted[OF assms(3) k] by blast
  finally have up: "album_upsert cfg e s d db = snd (snd (?pt t))" .
  have f: "(a_title row, a_artist row, a_year row) = album_fields cfg e d"
    unfolding row by (simp add: album_artist_def)
  show ?thesis using up f unfolding row by (intro exI[of _ row]) (simp add: row)
qed

lemma fst_process_album_directory:
  assumes "mounted s"
  shows "fst (process_album_directory cfg e s db d) =
           (if album_written cfg e d \<and>
               list_all (track_storable cfg e (album_artist cfg e d) d) (music_files cfg e d)
            then 1 else 0)"
proof (cases "album_written cfg e d")
  case False
  then show ?thesis using process_album_directory_skip[OF assms False] by simp
next
  case True
  from process_album_directory_write[OF assms True, of db] obtain s2 row where
    k: "mounted s2"
    and p: "process_album_directory cfg e s db d =
             (let (finished, s3, db2) =
                    process_tracks cfg e s2
                      (db\<lparr>albums := filter (\<lambda>r. a_directory r \<noteq> d) (albums db) @ [row]\<rparr>)
                      (new_rowid (map a_id (albums db))) (album_artist cfg e d) d
                      (music_files cfg e d)
              in if finished then (1, s3, db2)
                 else (0, log_msg ERROR (''Error processing album directory '' @ d) s3, db2))"
    by blast
  let ?pt = "process_tracks cfg e s2
                      (db\<lparr>albums := filter (\<lambda>r. a_directory r \<noteq> d) (albums db) @ [row]\<rparr>)
                      (new_rowid (map a_id (albums db))) (album_artist cfg e d) d
                      (music_files cfg e d)"
  have "fst ?pt = list_all (track_storable cfg e (album_artist cfg e d) d) (music_files cfg e d)"
    by (rule fst_process_tracks[OF k])
  then show ?thesis unfolding p using True by (cases ?pt) (auto simp add: Let_def)
qed

lemma process_album_directory_same_disk:
  assumes "mounted s" and "same_disk s t"
  shows "fst (process_album_directory cfg e t db d) = fst (process_album_directory cfg e s db d) \<and>
         album_upsert cfg e t d db = album_upsert cfg e s d db"
proof -
  have mt: "mounted t" using assms by (simp add: same_disk_def)
  have one: "fst (process_album_directory cfg e t db d) = fst (process_album_directory cfg e s db d)"
    unfolding fst_process_album_directory[OF assms(1)] fst_process_album_directory[OF mt] ..
  show ?thesis
  proof (cases "album_written cfg e d")
    case False
    then show ?thesis
      using one process_album_directory_skip[OF assms(1) False, of db]
            process_album_directory_skip[OF mt False, of db] by simp
  next
    case True
    from album_upsert_written[OF assms(1) True assms(1), of db] obtain row where
      a: "a_id row = new_rowid (map a_id (albums db))" "a_directory row = d"
         "(a_title row, a_artist row, a_year row) = album_fields cfg e d"
         "a_cover_art row = find_cover_art cfg e s d COVER_NAMES" "a_last_updated row = clock e"
         "album_upsert cfg e s d db =
             snd (snd (process_tracks cfg e s
                    (db\<lparr>albums := filter (\<lambda>r. a_directory r \<noteq> d) (albums db) @ [row]\<rparr>)
                    (new_rowid (map a_id (albums db))) (album_artist cfg e d) d
                    (music_files cfg e d)))" by blast
    from album_upsert_written[OF mt True assms(1), of db] obtain row' where
      b: "a_id row' = new_rowid (map a_id (albums db))" "a_directory row' = d"
         "(a_title row', a_artist row', a_year row') = album_fields cfg e d"
         "a_cover_art row' = find_cover_art cfg e t d COVER_NAMES" "a_last_updated row' = clock e"
         "album_upsert cfg e t d db =
             snd (snd (process_tracks cfg e s
                    (db\<lparr>albums := filter (\<lambda>r. a_directory r \<noteq> d) (albums db) @ [row']\<rparr>)
                    (new_rowid (map a_id (albums db))) (album_artist cfg e d) d
                    (music_files cfg e d)))" by blast
    have cv: "find_cover_art cfg e t d COVER_NAMES = find_cover_art cfg e s d COVER_NAMES"
      using find_cover_art_same_disk[OF assms(2)] .
    have "row' = row"
      using a(1-5) b(1-5) cv by (intro album_row.equality) (simp_all, (metis prod.inject)+)
    then show ?thesis using one a(6) b(6) by simp
  qed
qed

lemma album_upsert_same_disk:
  "mounted s \<Longrightarrow> same_disk s t \<Longrightarrow> album_upsert cfg e t = album_upsert cfg e s"
  using process_album_directory_same_disk by (intro ext) blast

text \<open>Album processing in a mounted state, table by table.\<close>

lemma album_upsert_skip:
  "mounted s \<Longrightarrow> \<not> album_written cfg e d \<Longrightarrow> album_upsert cfg e s d db = db"
  using process_album_directory_skip by blast

lemma written_files_skip: "\<not> album_written cfg e d \<Longrightarrow> written_files cfg e d = []"
  by (simp add: written_files_def)

lemma written_files_written:
  "album_written cfg e d \<Longrightarrow>
   written_files cfg e d =
     takeWhile (track_storable cfg e (album_artist cfg e d) d) (music_files cfg e d)"
  by (simp add: written_files_def)

lemma albums_album_upsert:
  assumes "mounted s" and "album_written cfg e d"
  shows "\<exists>row. albums (album_upsert cfg e s d db) =
                 filter (\<lambda>r. a_directory r \<noteq> d) (albums db) @ [row] \<and>
               a_id row = new_rowid (map a_id (albums db)) \<and> a_directory row = d \<and>
               (a_title row, a_artist row, a_year row) = album_fields cfg e d \<and>
               a_cover_art row = find_cover_art cfg e s d COVER_NAMES \<and>
               a_last_updated row = clock e"
proof -
  from album_upsert_written[OF assms assms(1), of db] obtain row where
    a: "a_id row = new_rowid (map a_id (albums db))" "a_directory row = d"
       "(a_title row, a_artist row, a_year row) = album_fields cfg e d"
       "a_cover_art row = find_cover_art cfg e s d COVER_NAMES" "a_last_updated row = clock e"
    and up: "album_upsert cfg e s d db =
             snd (snd (process_tracks cfg e s
                    (db\<lparr>albums := filter (\<lambda>r. a_directory r \<noteq> d) (albums db) @ [row]\<rparr>)
                    (new_rowid (map a_id (albums db))) (album_artist cfg e d) d
                    (music_files cfg e d)))" by blast
  have "albums (album_upsert cfg e s d db) = filter (\<lambda>r. a_directory r \<noteq> d) (albums db) @ [row]"
    unfolding up albums_process_tracks[OF assms(1)] by simp
  then show ?thesis using a by blast
qed

lemma tracks_album_upsert:
  assumes "mounted s" and "album_written cfg e d"
  shows "\<exists>db1. tracks db1 = tracks db \<and>
           tracks (album_upsert cfg e s d db) =
             tracks (snd (snd (process_tracks cfg e s db1 (new_rowid (map a_id (albums db)))
                       (album_artist cfg e d) d (music_files cfg e d))))"
proof -
  from album_upsert_written[OF assms assms(1), of db] obtain row where
    up: "album_upsert cfg e s d db =
             snd (snd (process_tracks cfg e s
                    (db\<lparr>albums := filter (\<lambda>r. a_directory r \<noteq> d) (albums db) @ [row]\<rparr>)
                    (new_rowid (map a_id (albums db))) (album_artist cfg e d) d
                    (music_files cfg e d)))" by blast
  show ?thesis unfolding up
    by (intro exI[of _ "db\<lparr>albums := filter (\<lambda>r. a_directory r \<noteq> d) (albums db) @ [row]\<rparr>"]) simp
qed

lemma dirs_album_upsert:
  assumes "mounted s"
  shows "set (map a_directory (albums (album_upsert cfg e s d db))) =
           set (map a_directory (albums db)) \<union> (if album_written cfg e d then {d} else {})"
proof (cases "album_written cfg e d")
  case False
  then show ?thesis using album_upsert_skip[OF assms False] by simp
next
  case True
  from albums_album_upsert[OF assms True, of db] obtain row where
    "albums (album_upsert cfg e s d db) = filter (\<lambda>r. a_directory r \<noteq> d) (albums db) @ [row]"
    "a_directory row = d" by blast
  then show ?thesis using True by auto
qed

lemma album_rows_album_upsert:
  assumes "mounted s" and "x \<in> set (albums (album_upsert cfg e s d db))"
  shows "(x \<in> set (albums db) \<and> (a_directory x = d \<longrightarrow> \<not> album_written cfg e d)) \<or>
         (a_id x = new_rowid (map a_id (albums db)) \<and> a_directory x = d \<and>
          album_written cfg e d \<and>
          (a_title x, a_artist x, a_year x) = album_fields cfg e d)"
proof (cases "album_written cfg e d")
  case False
  then show ?thesis using album_upsert_skip[OF assms(1) False] assms(2) by simp
next
  case True
  from albums_album_upsert[OF assms(1) True, of db] obtain row where
    a: "albums (album_upsert cfg e s d db) = filter (\<lambda>r. a_directory r \<noteq> d) (albums db) @ [row]"
    and r: "a_id row = new_rowid (map a_id (albums db))" "a_directory row = d"
      "(a_title row, a_artist row, a_year row) = album_fields cfg e d" by blast
  from assms(2) have "x \<in> set (filter (\<lambda>r. a_directory r \<noteq> d) (albums db)) \<or> x = row"
    unfolding a by auto
  then show ?thesis using r True by auto
qed

lemma album_keys_album_upsert:
  assumes "mounted s"
  shows "(distinct (map a_directory (albums db)) \<longrightarrow>
          distinct (map a_directory (albums (album_upsert cfg e s d db)))) \<and>
         (distinct (map a_id (albums db)) \<longrightarrow>
          distinct (map a_id (albums (album_upsert cfg e s d db)))) \<and>
         new_rowid (map a_id (albums db)) \<le>
           new_rowid (map a_id (albums (album_upsert cfg e s d db)))"
proof (cases "album_written cfg e d")
  case False
  then show ?thesis using album_upsert_skip[OF assms False] by simp
next
  case True
  from albums_album_upsert[OF assms True, of db] obtain row where
    a: "albums (album_upsert cfg e s d db) = filter (\<lambda>r. a_directory r \<noteq> d) (albums db) @ [row]"
    and d: "a_directory row = d" and i: "a_id row = new_rowid (map a_id (albums db))" by blast
  have "new_rowid (map a_id (albums db)) < new_rowid (map a_id (albums (album_upsert cfg e s d db)))"
    unfolding a by (rule new_rowid_filter_snoc[OF i])
  then show ?thesis unfolding a
    using distinct_filter_snoc[of a_directory "albums db" row d, OF _ d]
          distinct_ids_filter_snoc[of a_id "albums db" row, OF _ i]
    by simp
qed

lemma paths_album_upsert:
  assumes "mounted s"
  shows "set (map t_file_path (tracks (album_upsert cfg e s d db))) =
           set (map t_file_path (tracks db)) \<union> os_path_join d ` set (written_files cfg e d)"
proof (cases "album_written cfg e d")
  case False
  then show ?thesis using album_upsert_skip[OF assms False] written_files_skip[OF False] by simp
next
  case True
  from tracks_album_upsert[OF assms True, of db] obtain db1 where
    t: "tracks db1 = tracks db"
    "tracks (album_upsert cfg e s d db) =
             tracks (snd (snd (process_tracks cfg e s db1 (new_rowid (map a_id (albums db)))
                       (album_artist cfg e d) d (music_files cfg e d))))" by blast
  show ?thesis unfolding t(2) paths_process_tracks[OF assms] t(1) written_files_written[OF True] ..
qed

lemma track_keys_album_upsert:
  assumes "mounted s"
  shows "(distinct (map t_file_path (tracks db)) \<longrightarrow>
          distinct (map t_file_path (tracks (album_upsert cfg e s d db)))) \<and>
         (distinct (map t_id (tracks db)) \<longrightarrow>
          distinct (map t_id (tracks (album_upsert cfg e s d db)))) \<and>
         new_rowid (map t_id (tracks db)) \<le>
           new_rowid (map t_id (tracks (album_upsert cfg e s d db)))"
proof (cases "album_written cfg e d")
  case False
  then show ?thesis using album_upsert_skip[OF assms False] by simp
next
  case True
  from tracks_album_upsert[OF assms True, of db] obtain db1 where
    t: "tracks db1 = tracks db"
    "tracks (album_upsert cfg e s d db) =
             tracks (snd (snd (process_tracks cfg e s db1 (new_rowid (map a_id (albums db)))
                       (album_artist cfg e d) d (music_files cfg e d))))" by blast
  show ?thesis unfolding t(2)
    using distinct_process_tracks[OF assms, of db1 cfg e "new_rowid (map a_id (albums db))"
            "album_artist cfg e d" d "music_files cfg e d"]
    unfolding t(1) by blast
qed

lemma track_rows_album_upsert:
  assumes "mounted s" and "r \<in> set (tracks (album_upsert cfg e s d db))"
  shows "(r \<in> set (tracks db) \<and> t_file_path r \<notin> os_path_join d ` set (written_files cfg e d)) \<or>
         (new_rowid (map t_id (tracks db)) \<le> t_id r \<and>
          t_album_id r = new_rowid (map a_id (albums db)) \<and>
          (\<exists>f \<in> set (written_files cfg e d). t_file_path r = os_path_join d f \<and>
             (t_title r, t_artist r, t_track_number r, t_disc_number r, t_duration r) =
               track_values cfg e (album_artist cfg e d) d f))"
proof (cases "album_written cfg e d")
  case False
  then show ?thesis
    using album_upsert_skip[OF assms(1) False] written_files_skip[OF False] assms(2) by simp
next
  case True
  from tracks_album_upsert[OF assms(1) True, of db] obtain db1 where
    t: "tracks db1 = tracks db"
    "tracks (album_upsert cfg e s d db) =
             tracks (snd (snd (process_tracks cfg e s db1 (new_rowid (map a_id (albums db)))
                       (album_artist cfg e d) d (music_files cfg e d))))" by blast
  have "r \<in> set (tracks (snd (snd (process_tracks cfg e s db1 (new_rowid (map a_id (albums db)))
                       (album_artist cfg e d) d (music_files cfg e d)))))"
    using assms(2) unfolding t(2) .
  from rows_process_tracks[OF assms(1) this] show ?thesis
    by (simp only: t(1) written_files_written[OF True])
qed

text \<open>The warning for a file with unreadable tags is in the log after album processing,
  when the track loop reaches the file.\<close>

lemma process_album_directory_warns:
  assumes "mounted s" and "f \<in> set (written_files cfg e d)"
    and "read_tags e (os_path_join (MOUNT_POINT cfg) (os_path_join d f)) = None"
  shows "(WARNING, ''Error reading tags from '' @ os_path_join (MOUNT_POINT cfg) (os_path_join d f))
           \<in> set (logged (fst (snd (process_album_directory cfg e s db d))))"
proof -
  have w: "album_written cfg e d" using assms(2) written_files_skip by fastforce
  from process_album_directory_write[OF assms(1) w, of db] obtain s2 row where
    k: "mounted s2"
    and p: "process_album_directory cfg e s db d =
             (let (finished, s3, db2) =
                    process_tracks cfg e s2
                      (db\<lparr>albums := filter (\<lambda>r. a_directory r \<noteq> d) (albums db) @ [row]\<rparr>)
                      (new_rowid (map a_id (albums db))) (album_artist cfg e d) d
                      (music_files cfg e d)
              in if finished then (1, s3, db2)
                 else (0, log_msg ERROR (''Error processing album directory '' @ d) s3, db2))"
    by blast
  let ?pt = "process_tracks cfg e s2
                      (db\<lparr>albums := filter (\<lambda>r. a_directory r \<noteq> d) (albums db) @ [row]\<rparr>)
                      (new_rowid (map a_id (albums db))) (album_artist cfg e d) d
                      (music_files cfg e d)"
  have "f \<in> set (takeWhile (track_storable cfg e (album_artist cfg e d) d) (music_files cfg e d))"
    using assms(2) written_files_written[OF w] by simp
  from process_tracks_warns[OF this k assms(3)]
  have "(WARNING, ''Error reading tags from '' @ os_path_join (MOUNT_POINT cfg) (os_path_join d f))
           \<in> set (logged (fst (snd ?pt)))" .
  then show ?thesis unfolding p by (cases ?pt) (auto simp add: Let_def log_msg_def)
qed

section \<open>Folding album processing over the candidates\<close>

lemma dirs_fold_album_upsert:
  "mounted s \<Longrightarrow>
   set (map a_directory (albums (fold (album_upsert cfg e s) cs db))) =
     set (map a_directory (albums db)) \<union> {c \<in> set cs. album_written cfg e c}"
proof (induction cs arbitrary: db)
  case Nil
  then show ?case by simp
next
  case (Cons c cs)
  show ?case
    using Cons.IH[OF Cons.prems, of "album_upsert cfg e s c db"]
          dirs_album_upsert[OF Cons.prems, of cfg e c db]
    by auto
qed

lemma paths_fold_album_upsert:
  "mounted s \<Longrightarrow>
   set (map t_file_path (tracks (fold (album_upsert cfg e s) cs db))) =
     set (map t_file_path (tracks db)) \<union>
     (\<Union>c \<in> set cs. os_path_join c ` set (written_files cfg e c))"
proof (induction cs arbitrary: db)
  case Nil
  then show ?case by simp
next
  case (Cons c cs)
  show ?case
    using Cons.IH[OF Cons.prems, of "album_upsert cfg e s c db"]
          paths_album_upsert[OF Cons.prems, of cfg e c db]
    by auto
qed

lemma keys_fold_album_upsert:
  "mounted s \<Longrightarrow>
   (distinct (map a_directory (albums db)) \<longrightarrow>
    distinct (map a_directory (albums (fold (album_upsert cfg e s) cs db)))) \<and>
   (distinct (map a_id (albums db)) \<longrightarrow>
    distinct (map a_id (albums (fold (album_upsert cfg e s) cs db)))) \<and>
   new_rowid (map a_id (albums db)) \<le>
     new_rowid (map a_id (albums (fold (album_upsert cfg e s) cs db))) \<and>
   (distinct (map t_file_path (tracks db)) \<longrightarrow>
    distinct (map t_file_path (tracks (fold (album_upsert cfg e s) cs db)))) \<and>
   (distinct (map t_id (tracks db)) \<longrightarrow>
    distinct (map t_id (tracks (fold (album_upsert cfg e s) cs db)))) \<and>
   new_rowid (map t_id (tracks db)) \<le>
     new_rowid (map t_id (tracks (fold (album_upsert cfg e s) cs db)))"
proof (induction cs arbitrary: db)
  case Nil
  then show ?case by simp
next
  case (Cons c cs)
  let ?db1 = "album_upsert cfg e s c db"
  note a = album_keys_album_upsert[OF Cons.prems, of db cfg e c]
  note t = track_keys_album_upsert[OF Cons.prems, of db cfg e c]
  note ih = Cons.IH[OF Cons.prems, of ?db1]
  have f: "fold (album_upsert cfg e s) (c # cs) db = fold (album_upsert cfg e s) cs ?db1" by simp
  show ?case unfolding f
  proof (intro conjI impI)
    assume "distinct (map a_directory (albums db))"
    then show "distinct (map a_directory (albums (fold (album_upsert cfg e s) cs ?db1)))"
      using a ih by blast
  next
    assume "distinct (map a_id (albums db))"
    then show "distinct (map a_id (albums (fold (album_upsert cfg e s) cs ?db1)))"
      using a ih by blast
  next
    show "new_rowid (map a_id (albums db)) \<le>
            new_rowid (map a_id (albums (fold (album_upsert cfg e s) cs ?db1)))"
      using a ih by linarith
  next
    assume "distinct (map t_file_path (tracks db))"
    then show "distinct (map t_file_path (tracks (fold (album_upsert cfg e s) cs ?db1)))"
      using t ih by blast
  next
    assume "distinct (map t_id (tracks db))"
    then show "distinct (map t_id (tracks (fold (album_upsert cfg e s) cs ?db1)))"
      using t ih by blast
  next
    show "new_rowid (map t_id (tracks db)) \<le>
            new_rowid (map t_id (tracks (fold (album_upsert cfg e s) cs ?db1)))"
      using t ih by linarith
  qed
qed

text \<open>
  The rows after the fold: a row is either one that was there before, which no candidate
  replaced, or a row the fold inserted, with a rowid not below the next rowid of the table
  before, and the values the scan derives for its directory or file.
\<close>

lemma album_rows_fold_album_upsert:
  "mounted s \<Longrightarrow> x \<in> set (albums (fold (album_upsert cfg e s) cs db)) \<Longrightarrow>
   (x \<in> set (albums db) \<and> (a_directory x \<in> set cs \<longrightarrow> \<not> album_written cfg e (a_directory x))) \<or>
   (new_rowid (map a_id (albums db)) \<le> a_id x \<and> a_directory x \<in> set cs \<and>
    album_written cfg e (a_directory x) \<and>
    (a_title x, a_artist x, a_year x) = album_fields cfg e (a_directory x))"
proof (induction cs arbitrary: db)
  case Nil
  then show ?case by simp
next
  case (Cons c cs)
  let ?db1 = "album_upsert cfg e s c db"
  have mono: "new_rowid (map a_id (albums db)) \<le> new_rowid (map a_id (albums ?db1))"
    using album_keys_album_upsert[OF Cons.prems(1), of db cfg e c] by blast
  from Cons.prems(2) have "x \<in> set (albums (fold (album_upsert cfg e s) cs ?db1))" by simp
  from Cons.IH[OF Cons.prems(1) this] show ?case
  proof
    assume a: "x \<in> set (albums ?db1) \<and>
               (a_directory x \<in> set cs \<longrightarrow> \<not> album_written cfg e (a_directory x))"
    from album_rows_album_upsert[OF Cons.prems(1), of x cfg e c db] a
    show ?thesis by auto
  next
    assume "new_rowid (map a_id (albums ?db1)) \<le> a_id x \<and> a_directory x \<in> set cs \<and>
            album_written cfg e (a_directory x) \<and>
            (a_title x, a_artist x, a_year x) = album_fields cfg e (a_directory x)"
    then show ?thesis using mono by simp
  qed
qed

lemma track_rows_fold_album_upsert:
  "mounted s \<Longrightarrow> r \<in> set (tracks (fold (album_upsert cfg e s) cs db)) \<Longrightarrow>
   (r \<in> set (tracks db) \<and>
    t_file_path r \<notin> (\<Union>c \<in> set cs. os_path_join c ` set (written_files cfg e c))) \<or>
   (new_rowid (map t_id (tracks db)) \<le> t_id r \<and>
    (\<exists>c \<in> set cs. \<exists>f \<in> set (written_files cfg e c).
        t_file_path r = os_path_join c f \<and>
        (t_title r, t_artist r, t_track_number r, t_disc_number r, t_duration r) =
          track_values cfg e (album_artist cfg e c) c f))"
proof (induction cs arbitrary: db)
  case Nil
  then show ?case by simp
next
  case (Cons c cs)
  let ?db1 = "album_upsert cfg e s c db"
  have mono: "new_rowid (map t_id (tracks db)) \<le> new_rowid (map t_id (tracks ?db1))"
    using track_keys_album_upsert[OF Cons.prems(1), of db cfg e c] by blast
  from Cons.prems(2) have "r \<in> set (tracks (fold (album_upsert cfg e s) cs ?db1))" by simp
  from Cons.IH[OF Cons.prems(1) this] show ?case
  proof
    assume a: "r \<in> set (tracks ?db1) \<and>
               t_file_path r \<notin> (\<Union>c \<in> set cs. os_path_join c ` set (written_files cfg e c))"
    from track_rows_album_upsert[OF Cons.prems(1), of r cfg e c db] a
    show ?thesis by auto
  next
    assume "new_rowid (map t_id (tracks ?db1)) \<le> t_id r \<and>
      (\<exists>c \<in> set cs. \<exists>f \<in> set (written_files cfg e c).
        t_file_path r = os_path_join c f \<and>
        (t_title r, t_artist r, t_track_number r, t_disc_number r, t_duration r) =
          track_values cfg e (album_artist cfg e c) c f)"
    then show ?thesis using mono by auto
  qed
qed

section \<open>The loops of the scan\<close>

lemma scan_subdirs_fold:
  "mounted s \<Longrightarrow>
   same_disk s (fst (snd (scan_subdirs cfg e s db n d subs))) \<and>
   log_kept s (fst (snd (scan_subdirs cfg e s db n d subs))) \<and>
   snd (snd (scan_subdirs cfg e s db n d subs)) =
     fold (album_upsert cfg e s) (map (os_path_join d) subs) db"
proof (induction subs arbitrary: s db n)
  case Nil
  then show ?case by simp
next
  case (Cons sub subs)
  let ?c = "os_path_join d sub"
  obtain k s1 db1 where p: "process_album_directory cfg e s db ?c = (k, s1, db1)"
    by (cases "process_album_directory cfg e s db ?c")
  have sd: "same_disk s s1" and lk: "log_kept s s1"
    using mounted_process_album_directory[OF Cons.prems, of cfg e db ?c] p by simp_all
  have db1: "db1 = album_upsert cfg e s ?c db" using p by (simp add: album_upsert_def)
  have m1: "mounted s1" using sd Cons.prems by (rule same_disk_mounted)
  have up: "album_upsert cfg e s1 = album_upsert cfg e s"
    using album_upsert_same_disk[OF Cons.prems sd] .
  have step: "scan_subdirs cfg e s db n d (sub # subs) = scan_subdirs cfg e s1 db1 (n + k) d subs"
    using p by simp
  from Cons.IH[OF m1, of db1 "n + k"] sd lk up db1
  show ?case unfolding step by (auto intro: same_disk_trans log_kept_trans)
qed

lemma scan_subdirs_logs:
  assumes "mounted s" and "sub \<in> set subs"
    and "\<And>s' db'. mounted s' \<Longrightarrow>
           w \<in> set (logged (fst (snd (process_album_directory cfg e s' db' (os_path_join d sub)))))"
  shows "w \<in> set (logged (fst (snd (scan_subdirs cfg e s db n d subs))))"
  using assms(1,2)
proof (induction subs arbitrary: s db n)
  case Nil
  then show ?case by simp
next
  case (Cons x subs)
  let ?c = "os_path_join d x"
  obtain k s1 db1 where p: "process_album_directory cfg e s db ?c = (k, s1, db1)"
    by (cases "process_album_directory cfg e s db ?c")
  have sd: "same_disk s s1"
    using mounted_process_album_directory[OF Cons.prems(1), of cfg e db ?c] p by simp
  have m1: "mounted s1" using sd Cons.prems(1) by (rule same_disk_mounted)
  have step: "scan_subdirs cfg e s db n d (x # subs) = scan_subdirs cfg e s1 db1 (n + k) d subs"
    using p by simp
  show ?case
  proof (cases "x = sub")
    case True
    have "w \<in> set (logged s1)" using assms(3)[OF Cons.prems(1), of db] p True by simp
    moreover have "log_kept s1 (fst (snd (scan_subdirs cfg e s1 db1 (n + k) d subs)))"
      using scan_subdirs_fold[OF m1] by blast
    ultimately show ?thesis unfolding step log_kept_def by blast
  next
    case False
    then have "sub \<in> set subs" using Cons.prems(2) by simp
    from Cons.IH[OF m1 this] show ?thesis unfolding step .
  qed
qed

lemma album_candidates_Cons:
  "album_candidates cfg e (d # tops) =
      (if startswith_dot d then []
       else if music_files cfg e d \<noteq> [] then [d]
       else map (os_path_join d) (subdirectories cfg e d)) @ album_candidates cfg e tops"
  by (simp add: album_candidates_def)

text \<open>One round of the outer loop in a mounted state.\<close>

lemma scan_dirs_step:
  assumes "mounted s"
  shows "\<exists>s1 n1. mounted s1 \<and> same_disk s s1 \<and> log_kept s s1 \<and>
           scan_dirs cfg e s db n (d # tops) =
             scan_dirs cfg e s1
               (fold (album_upsert cfg e s) (album_candidates cfg e [d]) db) n1 tops \<and>
           (\<forall>c w. c \<in> set (album_candidates cfg e [d]) \<longrightarrow>
              (\<forall>s' db'. mounted s' \<longrightarrow>
                 w \<in> set (logged (fst (snd (process_album_directory cfg e s' db' c))))) \<longrightarrow>
              w \<in> set (logged s1))"
proof (cases "startswith_dot d")
  case True
  then show ?thesis using assms
    by (intro exI[of _ s] exI[of _ n]) (simp add: album_candidates_def)
next
  case nodot: False
  obtain mf s1 where l: "music_files_loop cfg e s d SUPPORTED_FORMATS = (mf, s1)"
    by (cases "music_files_loop cfg e s d SUPPORTED_FORMATS")
  have mf: "mf = music_files cfg e d" and sd1: "same_disk s s1"
    using music_files_loop_supported[OF assms, of cfg e d] l by simp_all
  have lk1: "log_kept s s1" using music_files_loop_log[of s cfg e d SUPPORTED_FORMATS] l by simp
  have m1: "mounted s1" using sd1 assms by (rule same_disk_mounted)
  have up1: "album_upsert cfg e s1 = album_upsert cfg e s"
    using album_upsert_same_disk[OF assms sd1] .
  show ?thesis
  proof (cases "mf = []")
    case True
    obtain subs s2 where ld: "list_directories cfg e s1 d = (subs, s2)"
      by (cases "list_directories cfg e s1 d")
    have subs: "subs = subdirectories cfg e d" and sd2: "same_disk s1 s2"
      using list_directories_mounted[OF m1, of cfg e d] ld by simp_all
    have lk2: "log_kept s1 s2" using list_directories_log[of s1 cfg e d] ld by simp
    have m2: "mounted s2" using sd2 m1 by (rule same_disk_mounted)
    have sd02: "same_disk s s2" using sd1 sd2 by (rule same_disk_trans)
    have up2: "album_upsert cfg e s2 = album_upsert cfg e s"
      using album_upsert_same_disk[OF assms sd02] .
    obtain n1 s3 db1 where ss: "scan_subdirs cfg e s2 db n d subs = (n1, s3, db1)"
      by (cases "scan_subdirs cfg e s2 db n d subs")
    from scan_subdirs_fold[OF m2, of cfg e db n d subs] ss up2
    have sd3: "same_disk s2 s3" and lk3: "log_kept s2 s3"
      and db1: "db1 = fold (album_upsert cfg e s) (map (os_path_join d) subs) db"
      by simp_all
    have sd03: "same_disk s s3" using sd02 sd3 by (rule same_disk_trans)
    have lk03: "log_kept s s3" using lk1 lk2 lk3 by (blast intro: log_kept_trans)
    have m3: "mounted s3" using sd03 assms by (rule same_disk_mounted)
    have cands: "album_candidates cfg e [d] = map (os_path_join d) subs"
      using nodot True mf subs by (simp add: album_candidates_def)
    have step: "scan_dirs cfg e s db n (d # tops) = scan_dirs cfg e s3 db1 n1 tops"
      using nodot l True ld ss by (simp add: Let_def)
    have logs: "w \<in> set (logged s3)"
      if c: "c \<in> set (album_candidates cfg e [d])"
        and w: "\<forall>s' db'. mounted s' \<longrightarrow>
                  w \<in> set (logged (fst (snd (process_album_directory cfg e s' db' c))))"
      for c w
    proof -
      from c obtain sub where sub: "sub \<in> set subs" "c = os_path_join d sub"
        unfolding cands by auto
      from scan_subdirs_logs[OF m2 sub(1), of w cfg e d db n] w sub(2) ss
      show ?thesis by simp
    qed
    show ?thesis using m3 sd03 lk03 step db1 cands logs
      by (intro exI[of _ s3] exI[of _ n1]) simp
  next
    case False
    obtain k s2 db1 where p: "process_album_directory cfg e s1 db d = (k, s2, db1)"
      by (cases "process_album_directory cfg e s1 db d")
    have sd2: "same_disk s1 s2" and lk2: "log_kept s1 s2"
      using mounted_process_album_directory[OF m1, of cfg e db d] p by simp_all
    have sd02: "same_disk s s2" using sd1 sd2 by (rule same_disk_trans)
    have lk02: "log_kept s s2" using lk1 lk2 by (rule log_kept_trans)
    have m2: "mounted s2" using sd02 assms by (rule same_disk_mounted)
    have "db1 = album_upsert cfg e s1 d db" using p by (simp add: album_upsert_def)
    then have db1: "db1 = album_upsert cfg e s d db" using up1 by simp
    have cands: "album_candidates cfg e [d] = [d]"
      using nodot False mf by (simp add: album_candidates_def)
    have step: "scan_dirs cfg e s db n (d # tops) = scan_dirs cfg e s2 db1 (n + k) tops"
      using nodot l False p by (simp add: Let_def)
    have logs: "w \<in> set (logged s2)"
      if c: "c \<in> set (album_candidates cfg e [d])"
        and w: "\<forall>s' db'. mounted s' \<longrightarrow>
                  w \<in> set (logged (fst (snd (process_album_directory cfg e s' db' c))))"
      for c w
    proof -
      have "c = d" using c unfolding cands by simp
      then have "w \<in> set (logged (fst (snd (process_album_directory cfg e s1 db d))))"
        using w m1 by blast
      then show ?thesis using p by simp
    qed
    show ?thesis using m2 sd02 lk02 step db1 cands logs
      by (intro exI[of _ s2] exI[of _ "n + k"]) simp
  qed
qed

lemma album_candidates_split:
  "album_candidates cfg e (d # tops) = album_candidates cfg e [d] @ album_candidates cfg e tops"
  by (simp add: album_candidates_def)

lemma scan_dirs_fold:
  "mounted s \<Longrightarrow>
   same_disk s (fst (snd (scan_dirs cfg e s db n tops))) \<and>
   log_kept s (fst (snd (scan_dirs cfg e s db n tops))) \<and>
   snd (snd (scan_dirs cfg e s db n tops)) =
     fold (album_upsert cfg e s) (album_candidates cfg e tops) db"
proof (induction tops arbitrary: s db n)
  case Nil
  then show ?case by (simp add: album_candidates_def)
next
  case (Cons d tops)
  from scan_dirs_step[OF Cons.prems, of cfg e db n d tops] obtain s1 n1 where
    k: "mounted s1" "same_disk s s1" "log_kept s s1"
    and step: "scan_dirs cfg e s db n (d # tops) =
             scan_dirs cfg e s1 (fold (album_upsert cfg e s) (album_candidates cfg e [d]) db) n1 tops"
    by blast
  have up: "album_upsert cfg e s1 = album_upsert cfg e s"
    using album_upsert_same_disk[OF Cons.prems k(2)] .
  from Cons.IH[OF k(1), of "fold (album_upsert cfg e s) (album_candidates cfg e [d]) db" n1] k(2,3)
  show ?case unfolding step album_candidates_split[of cfg e d tops] up
    by (auto intro: same_disk_trans log_kept_trans)
qed

lemma scan_dirs_logs:
  assumes "mounted s" and "c \<in> set (album_candidates cfg e tops)"
    and "\<forall>s' db'. mounted s' \<longrightarrow>
           w \<in> set (logged (fst (snd (process_album_directory cfg e s' db' c))))"
  shows "w \<in> set (logged (fst (snd (scan_dirs cfg e s db n tops))))"
  using assms(1,2)
proof (induction tops arbitrary: s db n)
  case Nil
  then show ?case by (simp add: album_candidates_def)
next
  case (Cons d tops)
  from scan_dirs_step[OF Cons.prems(1), of cfg e db n d tops] obtain s1 n1 where
    k: "mounted s1"
    and step: "scan_dirs cfg e s db n (d # tops) =
             scan_dirs cfg e s1 (fold (album_upsert cfg e s) (album_candidates cfg e [d]) db) n1 tops"
    and logs: "\<forall>c w. c \<in> set (album_candidates cfg e [d]) \<longrightarrow>
              (\<forall>s' db'. mounted s' \<longrightarrow>
                 w \<in> set (logged (fst (snd (process_album_directory cfg e s' db' c))))) \<longrightarrow>
              w \<in> set (logged s1)"
    by blast
  let ?db1 = "fold (album_upsert cfg e s) (album_candidates cfg e [d]) db"
  show ?case
  proof (cases "c \<in> set (album_candidates cfg e [d])")
    case True
    then have "w \<in> set (logged s1)" using logs assms(3) by blast
    moreover have "log_kept s1 (fst (snd (scan_dirs cfg e s1 ?db1 n1 tops)))"
      using scan_dirs_fold[OF k] by blast
    ultimately show ?thesis unfolding step log_kept_def by blast
  next
    case False
    then have "c \<in> set (album_candidates cfg e tops)"
      using Cons.prems(2) unfolding album_candidates_split[of cfg e d tops] by simp
    from Cons.IH[OF k this] show ?thesis unfolding step .
  qed
qed

text \<open>The whole scan: it fails exactly when the share cannot be mounted, leaving the
  database alone; otherwise it is the fold of album processing over the candidates of
  the root listing.\<close>

lemma fst_scan_library:
  "fst (scan_library cfg e s db) =
     fst (ensure_mounted e (log_msg INFO ''Starting music library scan...'' s))"
  by (cases "ensure_mounted e (log_msg INFO ''Starting music library scan...'' s)")
     (auto simp add: scan_library_def Let_def split: prod.splits)

lemma scan_library_returns:
  "fst (scan_library cfg e s db) \<longleftrightarrow> mounted s \<or> mount_works e"
proof -
  let ?s0 = "log_msg INFO ''Starting music library scan...'' s"
  have m: "mounted ?s0 = mounted s" by (simp add: log_msg_def)
  show ?thesis unfolding fst_scan_library
    using ensure_mounted_can[of ?s0 e] ensure_mounted_cannot[of ?s0 e] m by blast
qed

lemma scan_library_fails:
  assumes "\<not> fst (scan_library cfg e s db)"
  shows "snd (snd (scan_library cfg e s db)) = db \<and> \<not> mount_works e \<and>
         \<not> mounted (fst (snd (scan_library cfg e s db)))"
proof -
  let ?s0 = "log_msg INFO ''Starting music library scan...'' s"
  have f: "\<not> fst (ensure_mounted e ?s0)"
    using assms by (auto simp add: scan_library_def Let_def split: prod.splits)
  from ensure_mounted_fails[OF f] f show ?thesis
    by (auto simp add: scan_library_def Let_def log_msg_def split: prod.splits)
qed

lemma scan_library_succeeds:
  assumes "fst (scan_library cfg e s db)"
  shows "\<exists>s1. mounted s1 \<and> local_paths s1 = local_paths s \<and>
           same_disk s1 (fst (snd (scan_library cfg e s db))) \<and>
           snd (snd (scan_library cfg e s db)) =
             fold (album_upsert cfg e s1) (album_candidates cfg e (subdirectories cfg e [])) db \<and>
           (\<forall>c w. c \<in> set (album_candidates cfg e (subdirectories cfg e [])) \<longrightarrow>
              (\<forall>s' db'. mounted s' \<longrightarrow>
                 w \<in> set (logged (fst (snd (process_album_directory cfg e s' db' c))))) \<longrightarrow>
              w \<in> set (logged (fst (snd (scan_library cfg e s db)))))"
proof -
  let ?s0 = "log_msg INFO ''Starting music library scan...'' s"
  obtain ok s1 where em: "ensure_mounted e ?s0 = (ok, s1)" by (cases "ensure_mounted e ?s0")
  have ok: "ok" using assms em
    by (cases ok) (auto simp add: scan_library_def Let_def split: prod.splits)
  have m1: "mounted s1" using ensure_mounted_ok[of e ?s0] em ok by simp
  have lp: "local_paths s1 = local_paths s"
    using ensure_mounted_local[of e ?s0] em by (simp add: log_msg_def)
  obtain dirs s2 where ld: "list_directories cfg e s1 [] = (dirs, s2)"
    by (cases "list_directories cfg e s1 []")
  have dirs: "dirs = subdirectories cfg e []" and sd2: "same_disk s1 s2"
    using list_directories_mounted[OF m1, of cfg e "[]"] ld by simp_all
  have m2: "mounted s2" using sd2 m1 by (rule same_disk_mounted)
  have up2: "album_upsert cfg e s2 = album_upsert cfg e s1"
    using album_upsert_same_disk[OF m1 sd2] .
  obtain n s3 db1 where sc: "scan_dirs cfg e s2 db 0 dirs = (n, s3, db1)"
    by (cases "scan_dirs cfg e s2 db 0 dirs")
  from scan_dirs_fold[OF m2, of cfg e db 0 dirs] sc up2 dirs
  have sd3: "same_disk s2 s3"
    and db1: "db1 = fold (album_upsert cfg e s1) (album_candidates cfg e (subdirectories cfg e [])) db"
    by simp_all
  have sd13: "same_disk s1 s3" using sd2 sd3 by (rule same_disk_trans)
  have res: "scan_library cfg e s db = (True, log_msg INFO ''Library scan complete'' s3, db1)"
    using em ok ld sc by (simp add: scan_library_def Let_def)
  have logs: "w \<in> set (logged (log_msg INFO ''Library scan complete'' s3))"
    if c: "c \<in> set (album_candidates cfg e (subdirectories cfg e []))"
      and w: "\<forall>s' db'. mounted s' \<longrightarrow>
                w \<in> set (logged (fst (snd (process_album_directory cfg e s' db' c))))"
    for c w
  proof -
    from scan_dirs_logs[OF m2 c[folded dirs] w, of db 0] sc have "w \<in> set (logged s3)" by simp
    then show ?thesis by (simp add: log_msg_def)
  qed
  show ?thesis unfolding res using m1 lp sd13 db1 logs by (intro exI[of _ s1]) simp
qed

text \<open>A successful scan ends in a mounted state.\<close>

lemma scan_library_mounted:
  assumes "fst (scan_library cfg e s db)"
  shows "mounted (fst (snd (scan_library cfg e s db)))"
  using scan_library_succeeds[OF assms] by (auto simp add: same_disk_def)

text \<open>A scan that cannot mount is followed by one that cannot mount either.\<close>

lemma scan_library_fails_again:
  assumes "\<not> fst (scan_library cfg e s db)"
  shows "\<not> fst (scan_library cfg e (fst (snd (scan_library cfg e s db))) db')"
  using scan_library_fails[OF assms] unfolding scan_library_returns by simp

section \<open>Scanning twice\<close>

text \<open>What a successful scan leaves in the key columns.\<close>

lemma scan_library_keys:
  assumes "fst (scan_library cfg e s db)"
  shows "set (map a_directory (albums (snd (snd (scan_library cfg e s db))))) =
           set (map a_directory (albums db)) \<union>
           {c \<in> set (album_candidates cfg e (subdirectories cfg e [])). album_written cfg e c}"
    and "set (map t_file_path (tracks (snd (snd (scan_library cfg e s db))))) =
           set (map t_file_path (tracks db)) \<union>
           (\<Union>c \<in> set (album_candidates cfg e (subdirectories cfg e [])).
               os_path_join c ` set (written_files cfg e c))"
    and "distinct (map a_directory (albums db)) \<Longrightarrow>
         distinct (map a_directory (albums (snd (snd (scan_library cfg e s db)))))"
    and "distinct (map t_file_path (tracks db)) \<Longrightarrow>
         distinct (map t_file_path (tracks (snd (snd (scan_library cfg e s db)))))"
    and "distinct (map a_id (albums db)) \<Longrightarrow>
         distinct (map a_id (albums (snd (snd (scan_library cfg e s db)))))"
    and "distinct (map t_id (tracks db)) \<Longrightarrow>
         distinct (map t_id (tracks (snd (snd (scan_library cfg e s db)))))"
proof -
  from scan_library_succeeds[OF assms] obtain s1 where m: "mounted s1"
    and r: "snd (snd (scan_library cfg e s db)) =
             fold (album_upsert cfg e s1) (album_candidates cfg e (subdirectories cfg e [])) db"
    by blast
  note k = keys_fold_album_upsert[OF m, of db cfg e "album_candidates cfg e (subdirectories cfg e [])"]
  show "set (map a_directory (albums (snd (snd (scan_library cfg e s db))))) =
           set (map a_directory (albums db)) \<union>
           {c \<in> set (album_candidates cfg e (subdirectories cfg e [])). album_written cfg e c}"
    unfolding r by (rule dirs_fold_album_upsert[OF m])
  show "set (map t_file_path (tracks (snd (snd (scan_library cfg e s db))))) =
           set (map t_file_path (tracks db)) \<union>
           (\<Union>c \<in> set (album_candidates cfg e (subdirectories cfg e [])).
               os_path_join c ` set (written_files cfg e c))"
    unfolding r by (rule paths_fold_album_upsert[OF m])
  show "distinct (map a_directory (albums db)) \<Longrightarrow>
         distinct (map a_directory (albums (snd (snd (scan_library cfg e s db)))))"
    unfolding r using k by blast
  show "distinct (map t_file_path (tracks db)) \<Longrightarrow>
         distinct (map t_file_path (tracks (snd (snd (scan_library cfg e s db)))))"
    unfolding r using k by blast
  show "distinct (map a_id (albums db)) \<Longrightarrow>
         distinct (map a_id (albums (snd (snd (scan_library cfg e s db)))))"
    unfolding r using k by blast
  show "distinct (map t_id (tracks db)) \<Longrightarrow>
         distinct (map t_id (tracks (snd (snd (scan_library cfg e s db)))))"
    unfolding r using k by blast
qed

text \<open>The rows a successful scan leaves: the rows it did not replace, and the rows it
  wrote, with rowids no row had before.\<close>

lemma scan_library_album_rows:
  assumes "fst (scan_library cfg e s db)"
    and "x \<in> set (albums (snd (snd (scan_library cfg e s db))))"
  shows "(x \<in> set (albums db) \<and>
          \<not> (a_directory x \<in> set (album_candidates cfg e (subdirectories cfg e [])) \<and>
             album_written cfg e (a_directory x))) \<or>
         (new_rowid (map a_id (albums db)) \<le> a_id x \<and>
          a_directory x \<in> set (album_candidates cfg e (subdirectories cfg e [])) \<and>
          album_written cfg e (a_directory x) \<and>
          (a_title x, a_artist x, a_year x) = album_fields cfg e (a_directory x))"
proof -
  from scan_library_succeeds[OF assms(1)] obtain s1 where m: "mounted s1"
    and r: "snd (snd (scan_library cfg e s db)) =
             fold (album_upsert cfg e s1) (album_candidates cfg e (subdirectories cfg e [])) db"
    by blast
  from album_rows_fold_album_upsert[OF m assms(2)[unfolded r]] show ?thesis by blast
qed

lemma scan_library_track_rows:
  assumes "fst (scan_library cfg e s db)"
    and "r \<in> set (tracks (snd (snd (scan_library cfg e s db))))"
  shows "(r \<in> set (tracks db) \<and>
          t_file_path r \<notin> (\<Union>c \<in> set (album_candidates cfg e (subdirectories cfg e [])).
                               os_path_join c ` set (written_files cfg e c))) \<or>
         (new_rowid (map t_id (tracks db)) \<le> t_id r \<and>
          (\<exists>c \<in> set (album_candidates cfg e (subdirectories cfg e [])).
           \<exists>f \<in> set (written_files cfg e c).
             t_file_path r = os_path_join c f \<and>
             (t_title r, t_artist r, t_track_number r, t_disc_number r, t_duration r) =
               track_values cfg e (album_artist cfg e c) c f))"
proof -
  from scan_library_succeeds[OF assms(1)] obtain s1 where m: "mounted s1"
    and f: "snd (snd (scan_library cfg e s db)) =
             fold (album_upsert cfg e s1) (album_candidates cfg e (subdirectories cfg e [])) db"
    by blast
  from track_rows_fold_album_upsert[OF m assms(2)[unfolded f]] show ?thesis .
qed

lemma length_distinct_keys:
  "distinct (map k xs) \<Longrightarrow> distinct (map k ys) \<Longrightarrow> set (map k xs) = set (map k ys) \<Longrightarrow>
   length xs = length ys"
  by (metis distinct_card length_map)

text \<open>
  C3. Scan idempotence: for every share, state and database that satisfies the two
  \<^verbatim>\<open>UNIQUE\<close> constraints, a second \<^verbatim>\<open>scan_library\<close> run right after the first (on the state
  and the database the first one left) leaves as many album rows and as many track rows as
  the first one did.
\<close>

theorem scan_library_twice_same_counts:
  assumes "distinct (map a_directory (albums db))"
    and "distinct (map t_file_path (tracks db))"
  shows "length (albums (snd (snd (scan_library cfg e (fst (snd (scan_library cfg e s db)))
                                      (snd (snd (scan_library cfg e s db))))))) =
         length (albums (snd (snd (scan_library cfg e s db)))) \<and>
         length (tracks (snd (snd (scan_library cfg e (fst (snd (scan_library cfg e s db)))
                                      (snd (snd (scan_library cfg e s db))))))) =
         length (tracks (snd (snd (scan_library cfg e s db))))"
proof -
  let ?r1 = "scan_library cfg e s db"
  let ?s1 = "fst (snd ?r1)" and ?db1 = "snd (snd ?r1)"
  let ?r2 = "scan_library cfg e ?s1 ?db1"
  let ?db2 = "snd (snd ?r2)"
  show ?thesis
  proof (cases "fst ?r1")
    case False
    have "\<not> fst ?r2" by (rule scan_library_fails_again[OF False])
    then have "?db2 = ?db1" using scan_library_fails by blast
    then show ?thesis by simp
  next
    case ok1: True
    note k1 = scan_library_keys[OF ok1]
    have d1: "distinct (map a_directory (albums ?db1))" "distinct (map t_file_path (tracks ?db1))"
      using k1(3)[OF assms(1)] k1(4)[OF assms(2)] by simp_all
    show ?thesis
    proof (cases "fst ?r2")
      case False
      then have "?db2 = ?db1" using scan_library_fails by blast
      then show ?thesis by simp
    next
      case ok2: True
      note k2 = scan_library_keys[OF ok2]
      have d2: "distinct (map a_directory (albums ?db2))" "distinct (map t_file_path (tracks ?db2))"
        using k2(3)[OF d1(1)] k2(4)[OF d1(2)] by simp_all
      have "set (map a_directory (albums ?db2)) = set (map a_directory (albums ?db1))"
        unfolding k2(1) unfolding k1(1) by blast
      then have a: "length (albums ?db2) = length (albums ?db1)"
        using length_distinct_keys[OF d2(1) d1(1)] by simp
      have "set (map t_file_path (tracks ?db2)) = set (map t_file_path (tracks ?db1))"
        unfolding k2(2) unfolding k1(2) by blast
      then have t: "length (tracks ?db2) = length (tracks ?db1)"
        using length_distinct_keys[OF d2(2) d1(2)] by simp
      from a t show ?thesis by simp
    qed
  qed
qed

lemma example_candidates:
  "album_candidates default_config example_env (subdirectories default_config example_env []) =
     [''Artist/AlbumA'', ''Artist/.AlbumB'']"
  by code_simp

lemma example_music_AlbumA:
  "music_files default_config example_env ''Artist/AlbumA'' = [''02.flac'', ''01.flac'']"
  by code_simp

lemma example_music_AlbumB:
  "music_files default_config example_env ''Artist/.AlbumB'' = [''a.wav'']"
  by code_simp

lemmas album_eval = album_metadata_def tinytag_get_def mounted_state_def or_str_def
  os_path_join_def basename_def default_config_def utf8_width_def byte_def sqlite_int_def

lemma example_fields_AlbumA:
  "album_fields default_config example_env ''Artist/AlbumA'' = (''AlbumA'', ''Artist'', ''1999'')"
  unfolding album_fields_def example_music_AlbumA
  by (simp add: album_eval example_env_def song_tag_def)

lemma example_fields_AlbumB:
  "album_fields default_config example_env ''Artist/.AlbumB'' =
     (''.AlbumB'', ''Unknown Artist'', ''Unknown Year'')"
  unfolding album_fields_def example_music_AlbumB
  by (simp add: album_eval example_env_def)

lemma example_written_AlbumA: "album_written default_config example_env ''Artist/AlbumA''"
  unfolding album_written_def album_storable_def example_fields_AlbumA example_music_AlbumA
  by (simp add: utf8_width_def byte_def sqlite_int_def example_env_def)

lemma example_written_AlbumB: "album_written default_config example_env ''Artist/.AlbumB''"
  unfolding album_written_def album_storable_def example_fields_AlbumB example_music_AlbumB
  by (simp add: utf8_width_def byte_def sqlite_int_def example_env_def)

lemma example_scan_ok: "fst (scan_library default_config example_env (state0 False {}) db)"
  unfolding scan_library_returns by (simp add: example_env_def)

theorem scan_library_twice_same_counts_witness:
  "distinct (map a_directory (albums empty_db)) \<and>
   distinct (map t_file_path (tracks empty_db)) \<and>
   length (albums (snd (snd (scan_library default_config example_env (state0 False {}) empty_db)))) = 2 \<and>
   length (albums (snd (snd (scan_library default_config example_env
       (fst (snd (scan_library default_config example_env (state0 False {}) empty_db)))
       (snd (snd (scan_library default_config example_env (state0 False {}) empty_db))))))) = 2"
proof -
  let ?r1 = "scan_library default_config example_env (state0 False {}) empty_db"
  have h1: "distinct (map a_directory (albums empty_db))" by (simp add: empty_db_def)
  have h2: "distinct (map t_file_path (tracks empty_db))" by (simp add: empty_db_def)
  have ok: "fst ?r1" by (rule example_scan_ok)
  have "set (map a_directory (albums (snd (snd ?r1)))) = {''Artist/AlbumA'', ''Artist/.AlbumB''}"
    unfolding scan_library_keys(1)[OF ok] example_candidates
    using example_written_AlbumA example_written_AlbumB by (auto simp add: empty_db_def)
  moreover have "distinct (map a_directory (albums (snd (snd ?r1))))"
    using scan_library_keys(3)[OF ok h1] by simp
  ultimately have "card {''Artist/AlbumA'', ''Artist/.AlbumB''} = length (albums (snd (snd ?r1)))"
    by (metis distinct_card length_map)
  then have one: "length (albums (snd (snd ?r1))) = 2" by simp
  from scan_library_twice_same_counts [OF h1 h2, of default_config example_env "state0 False {}"] one
  have "length (albums (snd (snd (scan_library default_config example_env
       (fst (snd ?r1)) (snd (snd ?r1)))))) = 2" by simp
  with h1 h2 one show ?thesis by blast
qed


end
